theory Spec2Isabelle
  imports Complex_Main
begin

section \<open>Data model of the PetClaw boundary-condition engine\<close>

text \<open>
  The exceptions that the modelled code paths can raise.  \<open>NameError\<close> carries the name
  that is not bound, \<open>NotImplementedError\<close> its message.  \<open>ConfigurationError\<close> is the
  error class of the specification; no statement of the sources constructs it.
\<close>

datatype py_error =
    IndexError
  | ValueError
  | NameError string
  | NotImplementedError string
  | ConfigurationError string

text \<open>
  Arrays are mutated in place, so a raised exception leaves the array as far as it has been
  written.  An outcome is therefore the final array together with the exception, if any.
\<close>

datatype 's outcome = Done 's | Raised py_error 's

fun final :: "'s outcome \<Rightarrow> 's" where
  "final (Done s) = s"
| "final (Raised e s) = s"

fun is_ConfigurationError :: "py_error \<Rightarrow> bool" where
  "is_ConfigurationError (ConfigurationError m) = True"
| "is_ConfigurationError e = False"

text \<open>
  A numpy array: its shape and its entries, addressed by a full index (one position per
  axis).  Only entries at indices inside the shape belong to the array.
\<close>

record 'a ndarray =
  shape :: "nat list"
  dat :: "nat list \<Rightarrow> 'a"

definition in_shape :: "nat list \<Rightarrow> nat list \<Rightarrow> bool" where
  "in_shape shp idx = list_all2 (<) idx shp"

text \<open>The attributes of \<open>Dimension\<close> and \<open>Grid\<close> that the boundary code reads.\<close>

record dimension =
  name :: string
  n :: nat
  nstart :: nat
  nend :: nat
  mthbc_lower :: int
  mthbc_upper :: int

record grid =
  dimensions :: "dimension list"
  mbc :: nat

text \<open>
  Modelled from the spec: the property \<open>Grid.ndim\<close> is not among the sources; the grid is
  an ordered sequence of \<open>ndim\<close> dimensions.
\<close>

definition ndim :: "grid \<Rightarrow> nat" where
  "ndim g = length (dimensions g)"

section \<open>Indexing and slice assignment\<close>

text \<open>Python index normalisation on an axis of length \<open>len\<close>: a negative index counts from the end.\<close>

definition norm_index :: "nat \<Rightarrow> int \<Rightarrow> nat option" where
  "norm_index len k =
     (let j = (if k < 0 then int len + k else k)
      in if 0 \<le> j \<and> j < int len then Some (nat j) else None)"

text \<open>\<^verbatim>\<open>qbc[:,i,...] = qbc[:,j,...]\<close>\<close>

definition copy_axis1 :: "int \<Rightarrow> int \<Rightarrow> 'a ndarray \<Rightarrow> 'a ndarray outcome" where
  "copy_axis1 i j q =
     (case shape q of
        m # s1 # rest \<Rightarrow>
          (case (norm_index s1 j, norm_index s1 i) of
             (Some j', Some i') \<Rightarrow>
               Done (q\<lparr>dat := (\<lambda>idx. if in_shape (shape q) idx \<and> idx ! 1 = i'
                                       then dat q (idx[1 := j']) else dat q idx)\<rparr>)
           | _ \<Rightarrow> Raised IndexError q)
      | _ \<Rightarrow> Raised IndexError q)"

text \<open>\<^verbatim>\<open>qbc[c,i,...] = -qbc[c,j,...]\<close>\<close>

definition negate_axis1 :: "nat \<Rightarrow> int \<Rightarrow> int \<Rightarrow> ('a::uminus) ndarray \<Rightarrow> 'a ndarray outcome" where
  "negate_axis1 c i j q =
     (case shape q of
        m # s1 # rest \<Rightarrow>
          (case (norm_index s1 j, norm_index s1 i) of
             (Some j', Some i') \<Rightarrow>
               if c < m
               then Done (q\<lparr>dat := (\<lambda>idx. if in_shape (shape q) idx \<and> idx ! 0 = c \<and> idx ! 1 = i'
                                            then - dat q (idx[1 := j']) else dat q idx)\<rparr>)
               else Raised IndexError q
           | _ \<Rightarrow> Raised IndexError q)
      | _ \<Rightarrow> Raised IndexError q)"

text \<open>Sequencing of statements: an exception ends the run with the array as it is.\<close>

fun bind_outcome :: "'s outcome \<Rightarrow> ('s \<Rightarrow> 's outcome) \<Rightarrow> 's outcome" where
  "bind_outcome (Done s) f = f s"
| "bind_outcome (Raised e s) f = Raised e s"

text \<open>\<^verbatim>\<open>for i in xrange(...): body\<close> over the listed values of \<open>i\<close>.\<close>

fun for_loop :: "nat list \<Rightarrow> (nat \<Rightarrow> 's \<Rightarrow> 's outcome) \<Rightarrow> 's \<Rightarrow> 's outcome" where
  "for_loop [] body s = Done s"
| "for_loop (i # is) body s = bind_outcome (body i s) (for_loop is body)"

section \<open>The boundary fills \<open>qbc_lower\<close> and \<open>qbc_upper\<close>\<close>

text \<open>
  The two statements of a solid-wall loop body at ghost index \<open>i\<close>, reading index \<open>j\<close>,
  negating component \<open>c\<close>.
\<close>

definition wall_body :: "nat \<Rightarrow> int \<Rightarrow> int \<Rightarrow> ('a::uminus) ndarray \<Rightarrow> 'a ndarray outcome" where
  "wall_body c i j q = bind_outcome (copy_axis1 i j q) (negate_axis1 c i j)"

text \<open>
  \<open>qbc_lower\<close>.  The user callback \<open>user_bc_lower\<close> is a parameter.  Both \<open>raise\<close>
  statements build their message from \<open>x.mthbc_lower\<close>; no name \<open>x\<close> is bound in the
  function or the module, so evaluating the message raises \<open>NameError\<close> before the
  \<open>NotImplementedError\<close> is constructed.
\<close>

definition qbc_lower ::
  "(grid \<Rightarrow> dimension \<Rightarrow> ('a::uminus) ndarray \<Rightarrow> 'a ndarray outcome) \<Rightarrow>
   grid \<Rightarrow> dimension \<Rightarrow> 'a ndarray \<Rightarrow> 'a ndarray outcome" where
  "qbc_lower user_bc_lower g d q =
     (if mthbc_lower d = 0 then user_bc_lower g d q
      else if mthbc_lower d = 1 then
        (if nstart d = 0
         then for_loop [0..<mbc g] (\<lambda>i. copy_axis1 (int i) (int (mbc g))) q
         else Done q)
      else if mthbc_lower d = 2 then Done q
      else if mthbc_lower d = 3 then
        (if nstart d = 0 then
           (if ndim g = 1 then
              for_loop [0..<mbc g] (\<lambda>i. wall_body 1 (int i) (int (mbc g) + 1 - int i)) q
            else if ndim g = 2 then
              (if name d = ''x''
               then for_loop [0..<mbc g] (\<lambda>i. wall_body 1 (int i) (int (mbc g) + 1 - int i)) q
               else for_loop [0..<mbc g] (\<lambda>i. wall_body 2 (int i) (int (mbc g) + 1 - int i)) q)
            else Raised (NameError ''x'') q)
         else Done q)
      else Raised (NameError ''x'') q)"

definition qbc_upper ::
  "(grid \<Rightarrow> dimension \<Rightarrow> ('a::uminus) ndarray \<Rightarrow> 'a ndarray outcome) \<Rightarrow>
   grid \<Rightarrow> dimension \<Rightarrow> 'a ndarray \<Rightarrow> 'a ndarray outcome" where
  "qbc_upper user_bc_upper g d q =
     (if mthbc_upper d = 0 then user_bc_upper g d q
      else if mthbc_upper d = 1 then
        (if nend d = n d
         then for_loop [0..<mbc g] (\<lambda>i. copy_axis1 (- int i - 1) (- int (mbc g) - 1)) q
         else Done q)
      else if mthbc_upper d = 2 then Done q
      else if mthbc_upper d = 3 then
        (if nend d = n d then
           (if ndim g = 1 then
              for_loop [0..<mbc g]
                (\<lambda>i. wall_body 1 (- int i - 1) (- int (mbc g) - 2 + int i)) q
            else if ndim g = 2 then
              (if name d = ''x''
               then for_loop [0..<mbc g]
                      (\<lambda>i. wall_body 1 (- int i - 1) (- int (mbc g) - 2 + int i)) q
               else for_loop [0..<mbc g]
                      (\<lambda>i. wall_body 2 (- int i - 1) (- int (mbc g) - 2 + int i)) q)
            else Raised (NameError ''x'') q)
         else Done q)
      else Raised (NameError ''x'') q)"

section \<open>The driver \<open>qbc\<close>\<close>

text \<open>
  \<^verbatim>\<open>np.rollaxis(qbc,i+1,1)\<close> is a view of the same memory with axis \<open>i+1\<close> moved to
  position 1.  \<open>roll_index\<close> turns an index of the array into the index of the same entry
  in the view, \<open>unroll_index\<close> goes back.
\<close>

definition roll_index :: "nat \<Rightarrow> nat list \<Rightarrow> nat list" where
  "roll_index ax idx =
     (case idx of
        [] \<Rightarrow> []
      | x # xs \<Rightarrow> x # (idx ! ax) # (take (ax - 1) xs @ drop ax xs))"

definition unroll_index :: "nat \<Rightarrow> nat list \<Rightarrow> nat list" where
  "unroll_index ax v =
     (case v of
        x # y # rest \<Rightarrow> x # (take (ax - 1) rest @ y # drop (ax - 1) rest)
      | _ \<Rightarrow> v)"

definition rollaxis :: "nat \<Rightarrow> 'a ndarray \<Rightarrow> 'a ndarray" where
  "rollaxis ax q = \<lparr>shape = roll_index ax (shape q), dat = (\<lambda>v. dat q (unroll_index ax v))\<rparr>"

text \<open>What the writes made through the view leave in the array itself.\<close>

definition write_back :: "nat \<Rightarrow> 'a ndarray \<Rightarrow> 'a ndarray \<Rightarrow> 'a ndarray" where
  "write_back ax q v =
     q\<lparr>dat := (\<lambda>idx. if in_shape (shape q) idx then dat v (roll_index ax idx) else dat q idx)\<rparr>"

text \<open>
  Running \<open>f\<close> on the rolled view of \<open>q\<close>.  \<open>np.rollaxis\<close> raises \<open>ValueError\<close> when the
  array has no such axis.
\<close>

definition on_rolled ::
  "nat \<Rightarrow> ('a ndarray \<Rightarrow> 'a ndarray outcome) \<Rightarrow> 'a ndarray \<Rightarrow> 'a ndarray outcome" where
  "on_rolled ax f q =
     (if ax < length (shape q)
      then (case f (rollaxis ax q) of
              Done v \<Rightarrow> Done (write_back ax q v)
            | Raised e v \<Rightarrow> Raised e (write_back ax q v))
      else Raised ValueError q)"

text \<open>The body of the loop of \<open>qbc\<close> for the dimension \<open>d\<close> at position \<open>i\<close>.\<close>

definition qbc_dim ::
  "(grid \<Rightarrow> dimension \<Rightarrow> ('a::uminus) ndarray \<Rightarrow> 'a ndarray outcome) \<Rightarrow>
   (grid \<Rightarrow> dimension \<Rightarrow> 'a ndarray \<Rightarrow> 'a ndarray outcome) \<Rightarrow>
   grid \<Rightarrow> nat \<Rightarrow> dimension \<Rightarrow> 'a ndarray \<Rightarrow> 'a ndarray outcome" where
  "qbc_dim ul uu g i d q =
     bind_outcome
       (if mthbc_lower d = 0 then qbc_lower ul g d q
        else on_rolled (i + 1) (qbc_lower ul g d) q)
       (\<lambda>q'. if mthbc_upper d = 0 then qbc_upper uu g d q'
             else on_rolled (i + 1) (qbc_upper uu g d) q')"

text \<open>\<^verbatim>\<open>for i,dim in enumerate(grid.dimensions)\<close>, from position \<open>i\<close> on.\<close>

fun qbc_dims ::
  "(grid \<Rightarrow> dimension \<Rightarrow> ('a::uminus) ndarray \<Rightarrow> 'a ndarray outcome) \<Rightarrow>
   (grid \<Rightarrow> dimension \<Rightarrow> 'a ndarray \<Rightarrow> 'a ndarray outcome) \<Rightarrow>
   grid \<Rightarrow> nat \<Rightarrow> dimension list \<Rightarrow> 'a ndarray \<Rightarrow> 'a ndarray outcome" where
  "qbc_dims ul uu g i [] q = Done q"
| "qbc_dims ul uu g i (d # ds) q =
     bind_outcome (qbc_dim ul uu g i d q) (qbc_dims ul uu g (Suc i) ds)"

text \<open>
  \<open>qbc\<close>.  Its argument \<open>ghosted_q\<close> is the array that \<open>grid.ghosted_q\<close> hands out; the
  parameters \<open>t\<close> and \<open>q\<close> of the source are not read.
\<close>

definition qbc ::
  "(grid \<Rightarrow> dimension \<Rightarrow> ('a::uminus) ndarray \<Rightarrow> 'a ndarray outcome) \<Rightarrow>
   (grid \<Rightarrow> dimension \<Rightarrow> 'a ndarray \<Rightarrow> 'a ndarray outcome) \<Rightarrow>
   grid \<Rightarrow> 'a ndarray \<Rightarrow> 'a ndarray outcome" where
  "qbc ul uu g ghosted_q = qbc_dims ul uu g 0 (dimensions g) ghosted_q"

text \<open>
  The interior of a ghosted array with ghost width \<open>w\<close>: on every axis but the first (the
  components) the index lies between \<open>w\<close> and the axis length minus \<open>w\<close>.
\<close>

definition interior :: "nat \<Rightarrow> nat list \<Rightarrow> nat list \<Rightarrow> bool" where
  "interior w shp idx =
     (in_shape shp idx \<and>
      list_all (\<lambda>k. w \<le> idx ! k \<and> idx ! k + w < shp ! k) [1..<length shp])"

section \<open>The CFL reduction\<close>

record solver =
  cfl :: real
  dt_variable :: bool

text \<open>
  Modelled from the spec: \<open>comm.Allreduce(cfl1, max_cfl, MPI.MAX)\<close> belongs to the MPI
  library; it is the blocking all-reduce \<open>global_max\<close>, taken as the exact maximum of the
  values that the participating partitions pass in.
\<close>

fun Allreduce_MAX :: "real list \<Rightarrow> real" where
  "Allreduce_MAX [] = 0"
| "Allreduce_MAX [x] = x"
| "Allreduce_MAX (x # y # ys) = max x (Allreduce_MAX (y # ys))"

text \<open>\<open>communicateCFL\<close> on one partition; \<open>reduced\<close> is what the all-reduce returns there.\<close>

definition communicateCFL :: "real \<Rightarrow> solver \<Rightarrow> solver" where
  "communicateCFL reduced s = (if dt_variable s then s\<lparr>cfl := reduced\<rparr> else s)"

text \<open>
  All partitions run \<open>communicateCFL\<close>.  The partitions with \<open>dt_variable\<close> set enter the
  collective; when only some of them do, the collective never completes (\<open>None\<close>).
\<close>

definition communicateCFL_all :: "solver list \<Rightarrow> solver list option" where
  "communicateCFL_all ss =
     (let callers = filter dt_variable ss
      in if callers = [] \<or> length callers = length ss
         then Some (map (communicateCFL (Allreduce_MAX (map cfl callers))) ss)
         else None)"

section \<open>The sphere mappings\<close>

definition Rsphere :: real where
  "Rsphere = 1"

text \<open>
  The divisor \<open>d\<close> of \<open>mapc2p_sphere_nonvectorized\<close> for one point \<open>(xc, yc)\<close>, with the
  folding of the computational coordinates that precedes it.
\<close>

definition fold_nonvectorized :: "real \<Rightarrow> real \<Rightarrow> real \<times> real \<times> real" where
  "fold_nonvectorized xc0 yc0 =
     (let xc = (if xc0 \<ge> 1 then xc0 - 4 else xc0);
          xc = (if xc \<le> - 3 then xc + 4 else xc);
          (yc, xc) = (if yc0 \<ge> 1 then (2 - yc0, - 2 - xc) else (yc0, xc));
          (yc, xc) = (if yc \<le> - 1 then (- 2 - yc, - 2 - xc) else (yc, xc));
          (xc, sgnz) = (if xc \<le> - 1 then (- 2 - xc, - 1) else (xc, 1))
      in (xc, yc, sgnz))"

definition d_nonvectorized :: "real \<Rightarrow> real \<Rightarrow> real" where
  "d_nonvectorized xc0 yc0 =
     (let (xc, yc, sgnz) = fold_nonvectorized xc0 yc0;
          xc1 = \<bar>xc\<bar>;
          yc1 = \<bar>yc\<bar>
      in max (max xc1 yc1) (1 / 10 ^ 10))"

definition mapc2p_sphere_nonvectorized :: "real \<Rightarrow> real \<Rightarrow> real \<times> real \<times> real" where
  "mapc2p_sphere_nonvectorized xc0 yc0 =
     (let r1 = Rsphere;
          (xc, yc, sgnz) = fold_nonvectorized xc0 yc0;
          sgnxc = (if xc < 0 then - 1 else 1);
          sgnyc = (if yc < 0 then - 1 else 1);
          xc1 = \<bar>xc\<bar>;
          yc1 = \<bar>yc\<bar>;
          d = d_nonvectorized xc0 yc0;
          DD = r1 * d * (2 - d) / sqrt 2;
          R = r1;
          center = DD - sqrt (max (R\<^sup>2 - DD\<^sup>2) 0);
          xp = DD / d * xc1;
          yp = DD / d * yc1;
          (xp, yp) = (if yc1 \<ge> xc1
                      then (xp, center + sqrt (max (R\<^sup>2 - xp\<^sup>2) 0))
                      else (center + sqrt (max (R\<^sup>2 - yp\<^sup>2) 0), yp));
          zp = sqrt (max (r1\<^sup>2 - (xp\<^sup>2 + yp\<^sup>2)) 0)
      in (xp * sgnxc, yp * sgnyc, zp * sgnz))"

text \<open>The same for one entry of the arrays of \<open>mapc2p_sphere_vectorized\<close>.\<close>

definition fold_vectorized :: "real \<Rightarrow> real \<Rightarrow> real \<times> real \<times> real" where
  "fold_vectorized xc0 yc0 =
     (let (xc, yc) = (if yc0 < - 1 then (- xc0 - 2, - yc0 - 2) else (xc0, yc0));
          (xc, sgnz) = (if xc < - 1 then (- 2 - xc, - 1) else (xc, 1))
      in (xc, yc, sgnz))"

definition d_vectorized :: "real \<Rightarrow> real \<Rightarrow> real" where
  "d_vectorized xc0 yc0 =
     (let (xc, yc, sgnz) = fold_vectorized xc0 yc0;
          xc1 = \<bar>xc\<bar>;
          yc1 = \<bar>yc\<bar>;
          d = max xc1 yc1
      in max d (1 / 10 ^ 10))"

definition mapc2p_sphere_vectorized :: "real \<Rightarrow> real \<Rightarrow> real \<times> real \<times> real" where
  "mapc2p_sphere_vectorized xc0 yc0 =
     (let r1 = Rsphere;
          (xc, yc, sgnz) = fold_vectorized xc0 yc0;
          xc1 = \<bar>xc\<bar>;
          yc1 = \<bar>yc\<bar>;
          d = d_vectorized xc0 yc0;
          D = r1 * d * (2 - d) / sqrt 2;
          R = r1;
          center = D - sqrt (R\<^sup>2 - D\<^sup>2);
          xp = D / d * xc1;
          yp = D / d * yc1;
          yp = (if yc1 = d then center + sqrt (R\<^sup>2 - xp\<^sup>2) else yp);
          xp = (if xc1 = d then center + sqrt (R\<^sup>2 - yp\<^sup>2) else xp);
          xp = sgn xc * xp;
          yp = sgn yc * yp;
          zp = sgnz * sqrt (r1\<^sup>2 - (xp\<^sup>2 + yp\<^sup>2))
      in (xp, yp, zp))"

section \<open>The initial condition \<open>qinit\<close>\<close>

text \<open>
  What \<open>qinit\<close> reads and writes of \<open>state\<close>: the array \<open>state.q\<close> and the list
  \<open>state.grid.p_center\<close> of coordinate arrays, as \<open>compute_p_center\<close> has left it.
\<close>

record state =
  q :: "real ndarray"
  p_center :: "real ndarray list"

text \<open>\<^verbatim>\<open>state.grid.p_center[k][i][j]\<close>\<close>

definition read_p_center :: "state \<Rightarrow> nat \<Rightarrow> nat \<Rightarrow> nat \<Rightarrow> real option" where
  "read_p_center st k i j =
     (if k < length (p_center st) \<and> in_shape (shape (p_center st ! k)) [i, j]
      then Some (dat (p_center st ! k) [i, j]) else None)"

text \<open>\<^verbatim>\<open>state.q[c,i,j] = v\<close>\<close>

definition write_q :: "nat \<Rightarrow> nat \<Rightarrow> nat \<Rightarrow> real \<Rightarrow> state \<Rightarrow> state outcome" where
  "write_q c i j v st =
     (if in_shape (shape (q st)) [c, i, j]
      then Done (st\<lparr>q := (q st)\<lparr>dat := (dat (q st))([c, i, j] := v)\<rparr>\<rparr>)
      else Raised IndexError st)"

text \<open>
  The four-way branch that sets \<open>theta\<close>.  The third branch reads the bare name \<open>pi\<close>,
  which the module never binds (it imports \<open>numpy\<close> as \<open>np\<close> only).  Over the reals one of
  the four conditions always holds, so the last alternative below is never reached.
\<close>

definition theta_of :: "real \<Rightarrow> real \<Rightarrow> real \<Rightarrow> py_error + real" where
  "theta_of xp yp rad =
     (if xp \<ge> 0 \<and> yp \<ge> 0 then Inr (arcsin (yp / rad))
      else if xp \<le> 0 \<and> yp \<ge> 0 then Inr (pi - arcsin (yp / rad))
      else if xp \<le> 0 \<and> yp \<le> 0 then Inl (NameError ''pi'')
      else if xp \<ge> 0 \<and> yp \<le> 0 then Inr (- arcsin (- yp / rad))
      else Inl (NameError ''theta''))"

definition phi_of :: "real \<Rightarrow> real" where
  "phi_of zp = (if zp \<ge> 0 then arcsin (zp / Rsphere) else - arcsin (- zp / Rsphere))"

text \<open>
  The value of \<open>state.q[0,i,j]\<close> and the Cartesian velocity \<open>Uout\<close> at longitude \<open>xp\<close>
  and latitude \<open>yp\<close>.  The latitude is an arcsine, so \<open>cos yp\<close> is not negative and its
  float powers are written with \<open>powr\<close>; the square of \<open>sin yp\<close>, which can be negative, is
  a plain square.
\<close>

definition rossby_h :: "real \<Rightarrow> real \<Rightarrow> real" where
  "rossby_h xp yp =
     (let a = 6371220;
          K = 7848 / 10 ^ 9;
          Omega = 7292 / 10 ^ 8;
          G = 980616 / 10 ^ 5;
          h0 = 8000;
          R = 4;
          bigA = 0.5 * K * (2 * Omega + K) * cos yp powr 2 +
                 0.25 * K * K * cos yp powr (2 * R) *
                   ((1 * R + 1) * cos yp powr 2 + (2 * R * R - 1 * R - 2)
                    - 2 * R * R * cos yp powr (- 2));
          bigB = (2 * (Omega + K) * K) / ((1 * R + 1) * (1 * R + 2)) *
                 cos yp powr R * ((1 * R * R + 2 * R + 2) - (1 * R + 1)\<^sup>2 * (cos yp)\<^sup>2);
          bigC = 0.25 * K * K * cos yp powr (2 * R) * ((1 * R + 1) * (cos yp)\<^sup>2 - (1 * R + 2))
      in h0 / a + (a / G) * (bigA + bigB * cos (R * xp) + bigC * cos (2 * R * xp)))"

definition rossby_Uout :: "real \<Rightarrow> real \<Rightarrow> real \<times> real \<times> real" where
  "rossby_Uout xp yp =
     (let K = 7848 / 10 ^ 9;
          t0 = 86400;
          R = 4;
          Uin0 = (K * cos yp + K * cos yp powr (R - 1) *
                    (R * (sin yp)\<^sup>2 - cos yp powr 2) * cos (R * xp)) * t0;
          Uin1 = (- K * R * cos yp powr (R - 1) * sin yp * sin (R * xp)) * t0
      in (- sin xp * Uin0 - sin yp * cos xp * Uin1,
          cos xp * Uin0 - sin yp * sin xp * Uin1,
          cos yp * Uin1))"

text \<open>The loop body of \<open>qinit\<close> for the cell \<open>(i, j)\<close>.\<close>

definition qinit_cell :: "nat \<Rightarrow> nat \<Rightarrow> state \<Rightarrow> state outcome" where
  "qinit_cell i j st =
     (case (read_p_center st 0 i j, read_p_center st 1 i j, read_p_center st 2 i j) of
        (Some xp, Some yp, Some zp) \<Rightarrow>
          (let rad = max (sqrt (xp\<^sup>2 + yp\<^sup>2)) (1 / 10 ^ 6)
           in case theta_of xp yp rad of
                Inl e \<Rightarrow> Raised e st
              | Inr theta \<Rightarrow>
                  (let phi = phi_of zp;
                       h = rossby_h theta phi;
                       (u0, u1, u2) = rossby_Uout theta phi
                   in bind_outcome (write_q 0 i j h st) (\<lambda>st.
                      bind_outcome (write_q 1 i j (h * u0) st) (\<lambda>st.
                      bind_outcome (write_q 2 i j (h * u1) st)
                        (write_q 3 i j (h * u2))))))
      | _ \<Rightarrow> Raised IndexError st)"

definition qinit :: "state \<Rightarrow> nat \<Rightarrow> nat \<Rightarrow> state outcome" where
  "qinit st mx my = for_loop [0..<mx] (\<lambda>i. for_loop [0..<my] (\<lambda>j. qinit_cell i j)) st"

text \<open>The cell centre \<open>(i, j)\<close> lies in the third quadrant of the mapped plane.\<close>

definition third_quadrant :: "state \<Rightarrow> nat \<Rightarrow> nat \<Rightarrow> bool" where
  "third_quadrant st i j =
     (dat (p_center st ! 0) [i, j] \<le> 0 \<and> dat (p_center st ! 1) [i, j] < 0)"

text \<open>
  The arrays have the sizes that \<open>qinit\<close> expects for \<open>mx\<close> by \<open>my\<close> cells: three
  coordinate arrays and four components of \<open>q\<close>.
\<close>

definition sized :: "state \<Rightarrow> nat \<Rightarrow> nat \<Rightarrow> bool" where
  "sized st mx my =
     (length (p_center st) = 3 \<and>
      list_all (\<lambda>a. shape a = [mx, my]) (p_center st) \<and>
      shape (q st) = [4, mx, my])"

text \<open>
  What every step of \<open>qinit\<close> on \<open>st0\<close> preserves: the coordinate arrays, the shape of
  \<open>q\<close>, and the entries of \<open>q\<close> at the cells of the third quadrant.
\<close>

definition qinit_inv :: "state \<Rightarrow> state \<Rightarrow> bool" where
  "qinit_inv st0 s =
     (p_center s = p_center st0 \<and> shape (q s) = shape (q st0) \<and>
      (\<forall>c i j. third_quadrant st0 i j \<longrightarrow> dat (q s) [c, i, j] = dat (q st0) [c, i, j]))"

section \<open>Frame conditions\<close>

text \<open>
  \<open>keeps P a a'\<close>: the array \<open>a'\<close> has the shape of \<open>a\<close> and the same entry at every
  index that \<open>P\<close> protects.
\<close>

definition keeps :: "(nat list \<Rightarrow> bool) \<Rightarrow> 'a ndarray \<Rightarrow> 'a ndarray \<Rightarrow> bool" where
  "keeps P a a' = (shape a' = shape a \<and> (\<forall>idx. P idx \<longrightarrow> dat a' idx = dat a idx))"

section \<open>Sample inputs\<close>

text \<open>A user callback that writes nothing.\<close>

definition no_user_bc :: "grid \<Rightarrow> dimension \<Rightarrow> 'a ndarray \<Rightarrow> 'a ndarray outcome" where
  "no_user_bc g d a = Done a"

text \<open>
  A one-dimensional grid of three cells owned by a single partition, with boundary kind \<open>k\<close>
  on both sides and ghost width \<open>w\<close>, and a ghosted array of two components over it whose
  entry at \<open>[c, i]\<close> is \<open>10 c + i\<close>.
\<close>

definition line_dim :: "int \<Rightarrow> dimension" where
  "line_dim k = \<lparr>name = ''x'', n = 3, nstart = 0, nend = 3, mthbc_lower = k, mthbc_upper = k\<rparr>"

definition line_grid :: "nat \<Rightarrow> int \<Rightarrow> grid" where
  "line_grid w k = \<lparr>dimensions = [line_dim k], mbc = w\<rparr>"

definition line_q :: "nat \<Rightarrow> real ndarray" where
  "line_q w = \<lparr>shape = [2, 3 + 2 * w], dat = (\<lambda>idx. real (10 * idx ! 0 + idx ! 1))\<rparr>"

text \<open>The middle partition of a line of nine cells split in three: it owns neither edge.\<close>

definition inner_dim :: "int \<Rightarrow> dimension" where
  "inner_dim k = \<lparr>name = ''x'', n = 9, nstart = 3, nend = 6, mthbc_lower = k, mthbc_upper = k\<rparr>"

text \<open>A three-dimensional grid with boundary kind \<open>k\<close> everywhere and ghost width 2.\<close>

definition cube_grid :: "int \<Rightarrow> grid" where
  "cube_grid k =
     \<lparr>dimensions = [line_dim k, (line_dim k)\<lparr>name := ''y''\<rparr>, (line_dim k)\<lparr>name := ''z''\<rparr>],
      mbc = 2\<rparr>"

definition cube_q :: "real ndarray" where
  "cube_q = \<lparr>shape = [4, 7, 7, 7], dat = (\<lambda>idx. real (sum_list idx))\<rparr>"

text \<open>
  A two-dimensional grid of three by three cells with boundary kind \<open>k\<close> everywhere and
  ghost width 2, and a ghosted array of three components over it whose entry at
  \<open>[c, i, j]\<close> is \<open>100 c + 10 i + j\<close>.
\<close>

definition plane_grid :: "int \<Rightarrow> grid" where
  "plane_grid k = \<lparr>dimensions = [line_dim k, (line_dim k)\<lparr>name := ''y''\<rparr>], mbc = 2\<rparr>"

definition plane_q :: "real ndarray" where
  "plane_q = \<lparr>shape = [3, 7, 7], dat = (\<lambda>idx. real (100 * idx ! 0 + 10 * idx ! 1 + idx ! 2))\<rparr>"

text \<open>
  Two partitions that observed the CFL numbers \<open>1/2\<close> and \<open>1\<close>, with the step size
  variable or fixed as \<open>v\<close> says.
\<close>

definition two_partitions :: "bool \<Rightarrow> solver list" where
  "two_partitions v = [\<lparr>cfl = 1 / 2, dt_variable = v\<rparr>, \<lparr>cfl = 1, dt_variable = v\<rparr>]"

text \<open>
  A state of two by two cells with one cell centre in each quadrant of the mapped plane:
  \<open>xp\<close> is 1 in row 0 and -1 in row 1, \<open>yp\<close> is 1 in column 0 and -1 in column 1; \<open>q\<close>
  is zero everywhere.
\<close>

definition quadrant_state :: state where
  "quadrant_state =
     \<lparr>q = \<lparr>shape = [4, 2, 2], dat = (\<lambda>idx. 0)\<rparr>,
      p_center =
        [\<lparr>shape = [2, 2], dat = (\<lambda>idx. if idx ! 0 = 0 then 1 else - 1)\<rparr>,
         \<lparr>shape = [2, 2], dat = (\<lambda>idx. if idx ! 1 = 0 then 1 else - 1)\<rparr>,
         \<lparr>shape = [2, 2], dat = (\<lambda>idx. 0)\<rparr>]\<rparr>"

section \<open>Periodic sides\<close>

text \<open>
  Claim C6.  On a periodic side (kind 2) \<open>qbc_lower\<close> and \<open>qbc_upper\<close> finish normally and
  return the array exactly as they received it: no entry is written.
\<close>

theorem periodic_is_noop:
  "(mthbc_lower d = 2 \<longrightarrow> qbc_lower ul g d a = Done a) \<and>
   (mthbc_upper d = 2 \<longrightarrow> qbc_upper uu g d a = Done a)"
  by (simp add: qbc_lower_def qbc_upper_def)

theorem periodic_is_noop_witness:
  "qbc_lower no_user_bc (line_grid 2 2) (line_dim 2) (line_q 2) = Done (line_q 2) \<and>
   qbc_upper no_user_bc (line_grid 2 2) (line_dim 2) (line_q 2) = Done (line_q 2)"
  using periodic_is_noop [of "line_dim 2" no_user_bc "line_grid 2 2" "line_q 2" no_user_bc]
  by (simp add: line_dim_def)

section \<open>Sides that are not a physical edge\<close>

text \<open>
  Claim C5.  With zero-order extrapolation (kind 1) or a reflecting wall (kind 3) on a side
  whose physical edge the partition does not own (lower side with \<open>nstart \<noteq> 0\<close>, upper side
  with \<open>nend \<noteq> n\<close>), the fill is skipped: it finishes normally with the array unchanged.
\<close>

theorem skipped_off_edge:
  "((mthbc_lower d = 1 \<or> mthbc_lower d = 3) \<and> nstart d \<noteq> 0
      \<longrightarrow> qbc_lower ul g d a = Done a) \<and>
   ((mthbc_upper d = 1 \<or> mthbc_upper d = 3) \<and> nend d \<noteq> n d
      \<longrightarrow> qbc_upper uu g d a = Done a)"
  by (auto simp add: qbc_lower_def qbc_upper_def)

theorem skipped_off_edge_witness:
  "qbc_lower no_user_bc (line_grid 2 3) (inner_dim 3) (line_q 2) = Done (line_q 2) \<and>
   qbc_upper no_user_bc (line_grid 2 3) (inner_dim 3) (line_q 2) = Done (line_q 2) \<and>
   qbc_lower no_user_bc (line_grid 2 1) (inner_dim 1) (line_q 2) = Done (line_q 2) \<and>
   qbc_upper no_user_bc (line_grid 2 1) (inner_dim 1) (line_q 2) = Done (line_q 2)"
  using skipped_off_edge [of "inner_dim 3" no_user_bc "line_grid 2 3" "line_q 2" no_user_bc]
    skipped_off_edge [of "inner_dim 1" no_user_bc "line_grid 2 1" "line_q 2" no_user_bc]
  by (simp add: inner_dim_def)

section \<open>Failing fills\<close>

text \<open>
  Claim C7.  A reflecting wall (kind 3) at a physical edge of a three-dimensional grid: the
  fill writes nothing and ends in the \<open>raise\<close> statement, whose message reads the unbound
  name \<open>x\<close>, so the exception that leaves the function is \<open>NameError\<close>, and not the
  \<open>NotImplementedError\<close> that the statement names.
\<close>

theorem wall_3d_raises_NameError:
  "(ndim g = 3 \<and> mthbc_lower d = 3 \<and> nstart d = 0
      \<longrightarrow> qbc_lower ul g d a = Raised (NameError ''x'') a) \<and>
   (ndim g = 3 \<and> mthbc_upper d = 3 \<and> nend d = n d
      \<longrightarrow> qbc_upper uu g d a = Raised (NameError ''x'') a)"
  by (simp add: qbc_lower_def qbc_upper_def)

theorem wall_3d_raises_NameError_witness:
  "qbc_lower no_user_bc (cube_grid 3) (line_dim 3) cube_q = Raised (NameError ''x'') cube_q \<and>
   qbc_upper no_user_bc (cube_grid 3) (line_dim 3) cube_q = Raised (NameError ''x'') cube_q"
  using wall_3d_raises_NameError [of "cube_grid 3" "line_dim 3" no_user_bc cube_q no_user_bc]
  by (simp add: ndim_def cube_grid_def line_dim_def)

text \<open>
  Claim C2.  With a kind other than 0, 1, 2 and 3 the fill writes nothing and ends in the
  last \<open>raise\<close> statement.  Its message, which would name the kind, reads the unbound
  name \<open>x\<close>, so the exception that leaves \<open>qbc_lower\<close> and \<open>qbc_upper\<close> is the
  \<open>NameError\<close> for \<open>x\<close>: it is neither the \<open>NotImplementedError\<close> that the statement
  names nor a \<open>ConfigurationError\<close>, and it does not tell the kind.
\<close>

theorem unknown_kind_raises_NameError:
  "(mthbc_lower d \<notin> {0, 1, 2, 3}
      \<longrightarrow> qbc_lower ul g d a = Raised (NameError ''x'') a) \<and>
   (mthbc_upper d \<notin> {0, 1, 2, 3}
      \<longrightarrow> qbc_upper uu g d a = Raised (NameError ''x'') a)"
  by (simp add: qbc_lower_def qbc_upper_def)

theorem unknown_kind_raises_NameError_witness:
  "qbc_lower no_user_bc (line_grid 2 4) (line_dim 4) (line_q 2)
     = Raised (NameError ''x'') (line_q 2) \<and>
   qbc_upper no_user_bc (line_grid 2 4) (line_dim 4) (line_q 2)
     = Raised (NameError ''x'') (line_q 2) \<and>
   \<not> is_ConfigurationError (NameError ''x'')"
  using unknown_kind_raises_NameError
    [of "line_dim 4" no_user_bc "line_grid 2 4" "line_q 2" no_user_bc]
  by (simp add: line_dim_def)

section \<open>Zero-order extrapolation\<close>

lemma for_loop_append:
  "for_loop (xs @ ys) body s = bind_outcome (for_loop xs body s) (for_loop ys body)"
proof (induction xs arbitrary: s)
  case Nil
  show ?case by simp
next
  case (Cons x xs)
  show ?case by (cases "body x s") (simp_all add: Cons.IH)
qed

lemma norm_index_nat: "k < len \<Longrightarrow> norm_index len (int k) = Some k"
  by (simp add: norm_index_def)

lemma norm_index_neg: "k < len \<Longrightarrow> norm_index len (- int k - 1) = Some (len - Suc k)"
  by (auto simp add: norm_index_def Let_def nat_diff_distrib)

lemma in_shape_nth1: "in_shape (m # s1 # rest) idx \<Longrightarrow> idx ! 1 < s1"
  by (auto simp add: in_shape_def list_all2_Cons2)

lemma in_shape_length: "in_shape (m # s1 # rest) idx \<Longrightarrow> 1 < length idx"
  by (auto simp add: in_shape_def list_all2_Cons2)

lemma copy_axis1_step:
  assumes "shape a = m # s1 # rest" "i < s1" "j < s1"
  shows "copy_axis1 (int i) (int j) a =
         Done (a\<lparr>dat := (\<lambda>idx. if in_shape (shape a) idx \<and> idx ! 1 = i
                                 then dat a (idx[1 := j]) else dat a idx)\<rparr>)"
  using assms by (simp add: copy_axis1_def norm_index_nat)

lemma copy_axis1_step_neg:
  assumes "shape a = m # s1 # rest" "i < s1" "j < s1"
  shows "copy_axis1 (- int i - 1) (- int j - 1) a =
         Done (a\<lparr>dat := (\<lambda>idx. if in_shape (shape a) idx \<and> idx ! 1 = s1 - Suc i
                                 then dat a (idx[1 := s1 - Suc j]) else dat a idx)\<rparr>)"
  using assms by (simp add: copy_axis1_def norm_index_neg)

lemma copy_lower_loop:
  assumes "shape a = m # s1 # rest" "w < s1" "k \<le> w"
  shows "for_loop [0..<k] (\<lambda>i. copy_axis1 (int i) (int w)) a =
         Done (a\<lparr>dat := (\<lambda>idx. if in_shape (shape a) idx \<and> idx ! 1 < k
                                 then dat a (idx[1 := w]) else dat a idx)\<rparr>)"
proof -
  define F where "F k = a\<lparr>dat := (\<lambda>idx. if in_shape (shape a) idx \<and> idx ! 1 < k
                                 then dat a (idx[1 := w]) else dat a idx)\<rparr>" for k
  have shp: "shape (F k) = m # s1 # rest" for k by (simp add: F_def assms(1))
  have step: "copy_axis1 (int k) (int w) (F k) = Done (F (Suc k))" if "k < w" for k
  proof -
    have "(if in_shape (m # s1 # rest) idx \<and> idx ! 1 = k
           then dat (F k) (idx[1 := w]) else dat (F k) idx) = dat (F (Suc k)) idx" for idx
    proof (cases "in_shape (m # s1 # rest) idx")
      case True
      then have "idx[1 := w] ! 1 = w" using in_shape_length [of m s1 rest idx] by simp
      then show ?thesis using True that by (auto simp add: F_def assms(1) less_Suc_eq)
    next
      case False
      then show ?thesis by (simp add: F_def assms(1))
    qed
    then have "(F k)\<lparr>dat := (\<lambda>idx. if in_shape (shape (F k)) idx \<and> idx ! 1 = k
                  then dat (F k) (idx[1 := w]) else dat (F k) idx)\<rparr> = F (Suc k)"
      by (simp add: shp)
    then show ?thesis
      using copy_axis1_step [OF shp, of k w k] that assms(2) by simp
  qed
  have "for_loop [0..<k] (\<lambda>i. copy_axis1 (int i) (int w)) a = Done (F k)"
    using assms(3)
  proof (induction k)
    case 0
    show ?case by (simp add: F_def)
  next
    case (Suc k)
    then show ?case by (simp add: for_loop_append step)
  qed
  then show ?thesis by (simp add: F_def)
qed

lemma copy_upper_loop:
  assumes "shape a = m # s1 # rest" "w < s1" "k \<le> w"
  shows "for_loop [0..<k] (\<lambda>i. copy_axis1 (- int i - 1) (- int w - 1)) a =
         Done (a\<lparr>dat := (\<lambda>idx. if in_shape (shape a) idx \<and> s1 - k \<le> idx ! 1
                                 then dat a (idx[1 := s1 - Suc w]) else dat a idx)\<rparr>)"
proof -
  define F where "F k = a\<lparr>dat := (\<lambda>idx. if in_shape (shape a) idx \<and> s1 - k \<le> idx ! 1
                                 then dat a (idx[1 := s1 - Suc w]) else dat a idx)\<rparr>" for k
  have shp: "shape (F k) = m # s1 # rest" for k by (simp add: F_def assms(1))
  have step: "copy_axis1 (- int k - 1) (- int w - 1) (F k) = Done (F (Suc k))" if "k < w" for k
  proof -
    have "(if in_shape (m # s1 # rest) idx \<and> idx ! 1 = s1 - Suc k
           then dat (F k) (idx[1 := s1 - Suc w]) else dat (F k) idx) = dat (F (Suc k)) idx" for idx
    proof (cases "in_shape (m # s1 # rest) idx")
      case True
      then have "idx[1 := s1 - Suc w] ! 1 = s1 - Suc w"
        using in_shape_length [of m s1 rest idx] by simp
      then show ?thesis
        using True that assms(2) in_shape_nth1 [OF True] by (auto simp add: F_def assms(1))
    next
      case False
      then show ?thesis by (simp add: F_def assms(1))
    qed
    then have "(F k)\<lparr>dat := (\<lambda>idx. if in_shape (shape (F k)) idx \<and> idx ! 1 = s1 - Suc k
                  then dat (F k) (idx[1 := s1 - Suc w]) else dat (F k) idx)\<rparr> = F (Suc k)"
      by (simp add: shp)
    then show ?thesis
      using copy_axis1_step_neg [OF shp, of k w k] that assms(2) by simp
  qed
  have F0: "F 0 = a"
  proof -
    have "(if in_shape (m # s1 # rest) idx \<and> s1 \<le> idx ! 1
           then dat a (idx[1 := s1 - Suc w]) else dat a idx) = dat a idx" for idx
      using in_shape_nth1 [of m s1 rest idx] by auto
    then show ?thesis by (simp add: F_def assms(1))
  qed
  have "for_loop [0..<k] (\<lambda>i. copy_axis1 (- int i - 1) (- int w - 1)) a = Done (F k)"
    using assms(3)
  proof (induction k)
    case 0
    show ?case by (simp add: F0)
  next
    case (Suc k)
    then show ?case by (simp add: for_loop_append step)
  qed
  then show ?thesis by (simp add: F_def)
qed


lemma extrapolation_lower:
  assumes "mthbc_lower d = 1" "nstart d = 0"
    and shp: "shape a = m # (nl + 2 * mbc g) # rest" and nl: "0 < nl"
  shows "\<exists>a'. qbc_lower ul g d a = Done a' \<and> shape a' = shape a \<and>
              (\<forall>idx. in_shape (shape a) idx \<and> idx ! 1 < mbc g
                 \<longrightarrow> dat a' idx = dat a (idx[1 := mbc g])) \<and>
              qbc_lower ul g d a' = Done a'"
proof -
  let ?w = "mbc g"
  let ?s1 = "nl + 2 * mbc g"
  define a' where "a' = a\<lparr>dat := (\<lambda>idx. if in_shape (shape a) idx \<and> idx ! 1 < ?w
                                 then dat a (idx[1 := ?w]) else dat a idx)\<rparr>"
  have w: "?w < ?s1" using nl by simp
  have run: "qbc_lower ul g d a = Done a'"
    using assms(1,2) copy_lower_loop [OF shp w order_refl]
    by (simp add: qbc_lower_def a'_def)
  have shp': "shape a' = m # ?s1 # rest" by (simp add: a'_def shp)
  have "(if in_shape (m # ?s1 # rest) idx \<and> idx ! 1 < ?w
         then dat a' (idx[1 := ?w]) else dat a' idx) = dat a' idx" for idx
  proof (cases "in_shape (m # ?s1 # rest) idx")
    case True
    then have "idx[1 := ?w] ! 1 = ?w" using in_shape_length [of m ?s1 rest idx] by simp
    then show ?thesis using True by (simp add: a'_def shp)
  next
    case False
    then show ?thesis by simp
  qed
  then have "a'\<lparr>dat := (\<lambda>idx. if in_shape (shape a') idx \<and> idx ! 1 < ?w
                                 then dat a' (idx[1 := ?w]) else dat a' idx)\<rparr> = a'"
    by (simp add: shp')
  then have again: "qbc_lower ul g d a' = Done a'"
    using assms(1,2) copy_lower_loop [OF shp' w order_refl]
    by (simp add: qbc_lower_def)
  show ?thesis
    using run again by (simp add: a'_def)
qed

lemma extrapolation_upper:
  assumes "mthbc_upper d = 1" "nend d = n d"
    and shp: "shape a = m # (nl + 2 * mbc g) # rest" and nl: "0 < nl"
  shows "\<exists>a'. qbc_upper uu g d a = Done a' \<and> shape a' = shape a \<and>
              (\<forall>idx. in_shape (shape a) idx \<and> mbc g + nl \<le> idx ! 1
                 \<longrightarrow> dat a' idx = dat a (idx[1 := mbc g + nl - 1])) \<and>
              qbc_upper uu g d a' = Done a'"
proof -
  let ?w = "mbc g"
  let ?s1 = "nl + 2 * mbc g"
  let ?j = "?s1 - Suc ?w"
  define a' where "a' = a\<lparr>dat := (\<lambda>idx. if in_shape (shape a) idx \<and> ?s1 - ?w \<le> idx ! 1
                                 then dat a (idx[1 := ?j]) else dat a idx)\<rparr>"
  have w: "?w < ?s1" using nl by simp
  have j: "?j = mbc g + nl - 1" "?s1 - ?w = mbc g + nl" "?j < ?s1 - ?w" using nl by simp_all
  have run: "qbc_upper uu g d a = Done a'"
    using assms(1,2) copy_upper_loop [OF shp w order_refl]
    by (simp add: qbc_upper_def a'_def)
  have shp': "shape a' = m # ?s1 # rest" by (simp add: a'_def shp)
  have "(if in_shape (m # ?s1 # rest) idx \<and> ?s1 - ?w \<le> idx ! 1
         then dat a' (idx[1 := ?j]) else dat a' idx) = dat a' idx" for idx
  proof (cases "in_shape (m # ?s1 # rest) idx")
    case True
    then have "idx[1 := ?j] ! 1 = ?j" using in_shape_length [of m ?s1 rest idx] by simp
    then show ?thesis using True j(3) by (simp add: a'_def shp)
  next
    case False
    then show ?thesis by simp
  qed
  then have "a'\<lparr>dat := (\<lambda>idx. if in_shape (shape a') idx \<and> ?s1 - ?w \<le> idx ! 1
                                 then dat a' (idx[1 := ?j]) else dat a' idx)\<rparr> = a'"
    by (simp add: shp')
  then have again: "qbc_upper uu g d a' = Done a'"
    using assms(1,2) copy_upper_loop [OF shp' w order_refl]
    by (simp add: qbc_upper_def)
  show ?thesis
    using run again j(1,2) by (simp add: a'_def)
qed


text \<open>
  Claim C3.  On a ghosted array with \<open>nl > 0\<close> interior cells along axis 1 and ghost
  width \<open>mbc\<close>, zero-order extrapolation (kind 1) at a physical edge finishes normally; each
  lower ghost cell (index below \<open>mbc\<close>) then holds, in every component and at every
  position of the other axes, the entry of the first interior cell (index \<open>mbc\<close>), each
  upper ghost cell (index \<open>mbc + nl\<close> or more) that of the last interior cell (index
  \<open>mbc + nl - 1\<close>); and running the fill again on the result returns the same array.
\<close>

theorem extrapolation_fill:
  assumes "shape a = m # (nl + 2 * mbc g) # rest" and "0 < nl"
  shows "(mthbc_lower d = 1 \<and> nstart d = 0 \<longrightarrow>
            (\<exists>a'. qbc_lower ul g d a = Done a' \<and> shape a' = shape a \<and>
                  (\<forall>idx. in_shape (shape a) idx \<and> idx ! 1 < mbc g
                     \<longrightarrow> dat a' idx = dat a (idx[1 := mbc g])) \<and>
                  qbc_lower ul g d a' = Done a')) \<and>
         (mthbc_upper d = 1 \<and> nend d = n d \<longrightarrow>
            (\<exists>a'. qbc_upper uu g d a = Done a' \<and> shape a' = shape a \<and>
                  (\<forall>idx. in_shape (shape a) idx \<and> mbc g + nl \<le> idx ! 1
                     \<longrightarrow> dat a' idx = dat a (idx[1 := mbc g + nl - 1])) \<and>
                  qbc_upper uu g d a' = Done a'))"
  using extrapolation_lower [OF _ _ assms] extrapolation_upper [OF _ _ assms] by blast

theorem extrapolation_fill_witness:
  "(\<exists>a'. qbc_lower no_user_bc (line_grid 2 1) (line_dim 1) (line_q 2) = Done a' \<and>
         dat a' [0, 0] = 2 \<and> dat a' [1, 1] = 12 \<and>
         qbc_lower no_user_bc (line_grid 2 1) (line_dim 1) a' = Done a') \<and>
   (\<exists>a'. qbc_upper no_user_bc (line_grid 2 1) (line_dim 1) (line_q 2) = Done a' \<and>
         dat a' [0, 5] = 4 \<and> dat a' [1, 6] = 14 \<and>
         qbc_upper no_user_bc (line_grid 2 1) (line_dim 1) a' = Done a')"
proof -
  have shp: "shape (line_q 2) = 2 # (3 + 2 * mbc (line_grid 2 1)) # []"
    by (simp add: line_q_def line_grid_def)
  note fill = extrapolation_fill [OF shp, of "line_dim 1" no_user_bc no_user_bc]
  have k: "mthbc_lower (line_dim 1) = 1 \<and> nstart (line_dim 1) = 0"
    "mthbc_upper (line_dim 1) = 1 \<and> nend (line_dim 1) = n (line_dim 1)"
    by (simp_all add: line_dim_def)
  from fill k(1) obtain lo where lo:
    "qbc_lower no_user_bc (line_grid 2 1) (line_dim 1) (line_q 2) = Done lo"
    "\<forall>idx. in_shape (shape (line_q 2)) idx \<and> idx ! 1 < mbc (line_grid 2 1)
        \<longrightarrow> dat lo idx = dat (line_q 2) (idx[1 := mbc (line_grid 2 1)])"
    "qbc_lower no_user_bc (line_grid 2 1) (line_dim 1) lo = Done lo"
    by auto
  from fill k(2) obtain up where up:
    "qbc_upper no_user_bc (line_grid 2 1) (line_dim 1) (line_q 2) = Done up"
    "\<forall>idx. in_shape (shape (line_q 2)) idx \<and> mbc (line_grid 2 1) + 3 \<le> idx ! 1
        \<longrightarrow> dat up idx = dat (line_q 2) (idx[1 := mbc (line_grid 2 1) + 3 - 1])"
    "qbc_upper no_user_bc (line_grid 2 1) (line_dim 1) up = Done up"
    by auto
  have "dat lo [0, 0] = 2" "dat lo [1, 1] = 12"
    using lo(2) [rule_format, of "[0, 0]"] lo(2) [rule_format, of "[1, 1]"]
    by (simp_all add: line_q_def line_grid_def in_shape_def)
  moreover have "dat up [0, 5] = 4" "dat up [1, 6] = 14"
    using up(2) [rule_format, of "[0, 5]"] up(2) [rule_format, of "[1, 6]"]
    by (simp_all add: line_q_def line_grid_def in_shape_def)
  ultimately show ?thesis using lo(1,3) up(1,3) by blast
qed

section \<open>Interior entries are never written\<close>

lemma keeps_refl: "keeps P a a"
  by (simp add: keeps_def)

lemma keeps_trans: "keeps P a b \<Longrightarrow> keeps P b c \<Longrightarrow> keeps P a c"
  by (simp add: keeps_def)

lemma bind_keeps:
  assumes "keeps P a (final m)"
    and "\<And>b. shape b = shape a \<Longrightarrow> keeps P b (final (f b))"
  shows "keeps P a (final (bind_outcome m f))"
proof (cases m)
  case (Done b)
  then have "keeps P a b" using assms(1) by simp
  moreover from this have "keeps P b (final (f b))" using assms(2) by (simp add: keeps_def)
  ultimately show ?thesis using Done by (simp add: keeps_trans)
next
  case (Raised e b)
  then show ?thesis using assms(1) by simp
qed

lemma for_loop_keeps:
  assumes "\<And>i b. i \<in> set js \<Longrightarrow> shape b = shape a \<Longrightarrow> keeps P b (final (body i b))"
  shows "keeps P a (final (for_loop js body a))"
  using assms
proof (induction js arbitrary: a)
  case Nil
  show ?case by (simp add: keeps_refl)
next
  case (Cons j js)
  show ?case
    unfolding for_loop.simps
  proof (rule bind_keeps)
    show "keeps P a (final (body j a))" using Cons.prems by simp
  next
    fix b :: "'a ndarray"
    assume b: "shape b = shape a"
    show "keeps P b (final (for_loop js body b))"
      by (rule Cons.IH) (simp add: Cons.prems b)
  qed
qed

lemma copy_axis1_keeps:
  assumes "\<And>idx i' s1. norm_index s1 i = Some i' \<Longrightarrow> shape a ! 1 = s1 \<Longrightarrow> idx ! 1 = i' \<Longrightarrow> \<not> P idx"
  shows "keeps P a (final (copy_axis1 i j a))"
  using assms
  by (auto simp add: copy_axis1_def keeps_def split: list.splits option.splits)

lemma negate_axis1_keeps:
  assumes "\<And>idx i' s1. norm_index s1 i = Some i' \<Longrightarrow> shape a ! 1 = s1 \<Longrightarrow> idx ! 1 = i' \<Longrightarrow> \<not> P idx"
  shows "keeps P a (final (negate_axis1 c i j a))"
  using assms
  by (auto simp add: negate_axis1_def keeps_def split: list.splits option.splits)

lemma wall_body_keeps:
  assumes "\<And>idx i' s1. norm_index s1 i = Some i' \<Longrightarrow> shape a ! 1 = s1 \<Longrightarrow> idx ! 1 = i' \<Longrightarrow> \<not> P idx"
  shows "keeps P a (final (wall_body c i j a))"
  unfolding wall_body_def
proof (rule bind_keeps)
  show "keeps P a (final (copy_axis1 i j a))" by (rule copy_axis1_keeps) (rule assms)
next
  fix b :: "'a ndarray"
  assume "shape b = shape a"
  then show "keeps P b (final (negate_axis1 c i j b))"
    using assms by (intro negate_axis1_keeps) simp
qed


lemma norm_index_lowerD: "norm_index s1 (int i) = Some i' \<Longrightarrow> i' = i"
  by (simp add: norm_index_def split: if_splits)

lemma norm_index_upperD: "norm_index s1 (- int i - 1) = Some i' \<Longrightarrow> i' + Suc i = s1"
  by (auto simp add: norm_index_def Let_def split: if_splits)

lemma qbc_lower_keeps:
  assumes "mthbc_lower d \<noteq> 0"
  shows "keeps (\<lambda>idx. mbc g \<le> idx ! 1) a (final (qbc_lower ul g d a))"
proof -
  have copy: "keeps (\<lambda>idx. mbc g \<le> idx ! 1) b (final (copy_axis1 (int i) j b))"
    if "i \<in> set [0..<mbc g]" for i j and b :: "'a ndarray"
    using that by (intro copy_axis1_keeps) (auto dest: norm_index_lowerD)
  have wall: "keeps (\<lambda>idx. mbc g \<le> idx ! 1) b (final (wall_body c (int i) j b))"
    if "i \<in> set [0..<mbc g]" for i j c and b :: "'a ndarray"
    using that by (intro wall_body_keeps) (auto dest: norm_index_lowerD)
  have loopc: "keeps (\<lambda>idx. mbc g \<le> idx ! 1) a
                 (final (for_loop [0..<mbc g] (\<lambda>i. copy_axis1 (int i) (J i)) a))" for J
    by (rule for_loop_keeps) (rule copy)
  have loopw: "keeps (\<lambda>idx. mbc g \<le> idx ! 1) a
                 (final (for_loop [0..<mbc g] (\<lambda>i. wall_body c (int i) (J i)) a))" for c J
    by (rule for_loop_keeps) (rule wall)
  show ?thesis
    using assms
    by (simp add: qbc_lower_def keeps_refl loopc loopw del: One_nat_def)
qed

lemma qbc_upper_keeps:
  assumes "mthbc_upper d \<noteq> 0"
  shows "keeps (\<lambda>idx. idx ! 1 + mbc g < shape a ! 1) a (final (qbc_upper uu g d a))"
proof -
  let ?P = "\<lambda>idx. idx ! 1 + mbc g < shape a ! 1"
  have copy: "keeps ?P b (final (copy_axis1 (- int i - 1) j b))"
    if "i \<in> set [0..<mbc g]" "shape b = shape a" for i j and b :: "'a ndarray"
    using that by (intro copy_axis1_keeps) (auto dest: norm_index_upperD)
  have wall: "keeps ?P b (final (wall_body c (- int i - 1) j b))"
    if "i \<in> set [0..<mbc g]" "shape b = shape a" for i j c and b :: "'a ndarray"
    using that by (intro wall_body_keeps) (auto dest: norm_index_upperD)
  have loopc: "keeps ?P a (final (for_loop [0..<mbc g] (\<lambda>i. copy_axis1 (- int i - 1) (J i)) a))"
    for J
    by (rule for_loop_keeps) (rule copy)
  have loopw: "keeps ?P a (final (for_loop [0..<mbc g] (\<lambda>i. wall_body c (- int i - 1) (J i)) a))"
    for c J
    by (rule for_loop_keeps) (rule wall)
  show ?thesis
    using assms
    by (simp add: qbc_upper_def keeps_refl loopc loopw del: One_nat_def)
qed

lemma unroll_roll:
  assumes "0 < ax" "ax < length idx"
  shows "unroll_index ax (roll_index ax idx) = idx"
proof (cases idx)
  case Nil
  then show ?thesis using assms by simp
next
  case (Cons x xs)
  obtain k where k: "ax = Suc k" using assms(1) by (cases ax) simp_all
  then have len: "k < length xs" using assms(2) Cons by simp
  have "take k xs @ xs ! k # drop (Suc k) xs = xs"
    using len by (simp add: id_take_nth_drop [symmetric])
  then show ?thesis
    using Cons k len by (simp add: roll_index_def unroll_index_def min_def)
qed

lemma roll_index_nth1: "0 < length idx \<Longrightarrow> roll_index ax idx ! 1 = idx ! ax"
  by (cases idx) (simp_all add: roll_index_def)

lemma in_shape_lengthD: "in_shape shp idx \<Longrightarrow> length idx = length shp"
  by (simp add: in_shape_def list_all2_lengthD)

lemma on_rolled_keeps:
  assumes "keeps P (rollaxis ax a) (final (f (rollaxis ax a)))"
    and "\<And>idx. Q idx \<Longrightarrow> in_shape (shape a) idx" 
    and "\<And>idx. Q idx \<Longrightarrow> ax < length (shape a) \<Longrightarrow> P (roll_index ax idx)"
    and "0 < ax"
  shows "keeps Q a (final (on_rolled ax f a))"
proof (cases "ax < length (shape a)")
  case False
  then show ?thesis by (simp add: on_rolled_def keeps_refl)
next
  case True
  have fin: "final (on_rolled ax f a) = write_back ax a (final (f (rollaxis ax a)))"
    using True by (cases "f (rollaxis ax a)") (simp_all add: on_rolled_def)
  have "dat (write_back ax a (final (f (rollaxis ax a)))) idx = dat a idx" if "Q idx" for idx
  proof -
    have ins: "in_shape (shape a) idx" using that assms(2) by simp
    then have len: "ax < length idx" using True by (simp add: in_shape_lengthD)
    have "dat (final (f (rollaxis ax a))) (roll_index ax idx) = dat (rollaxis ax a) (roll_index ax idx)"
      using assms(1) assms(3) [OF that True] by (simp add: keeps_def)
    also have "\<dots> = dat a idx"
      using unroll_roll [OF assms(4) len] by (simp add: rollaxis_def)
    finally show ?thesis using ins by (simp add: write_back_def)
  qed
  then show ?thesis by (simp add: fin keeps_def write_back_def)
qed


lemma interiorD:
  assumes "interior w shp idx" "0 < ax" "ax < length shp"
  shows "in_shape shp idx" "w \<le> idx ! ax" "idx ! ax + w < shp ! ax"
  using assms by (auto simp add: interior_def list_all_iff)

lemma interior_in_shape: "interior w shp idx \<Longrightarrow> in_shape shp idx"
  by (simp add: interior_def)

lemma qbc_dim_keeps:
  assumes "mthbc_lower d \<noteq> 0" "mthbc_upper d \<noteq> 0"
  shows "keeps (interior (mbc g) (shape a)) a (final (qbc_dim ul uu g i d a))"
proof -
  let ?ax = "i + 1"
  let ?Q = "interior (mbc g) (shape a)"
  have lower: "keeps ?Q a (final (on_rolled ?ax (qbc_lower ul g d) a))"
  proof (rule on_rolled_keeps [where P = "\<lambda>idx. mbc g \<le> idx ! 1"])
    show "keeps (\<lambda>idx. mbc g \<le> idx ! 1) (rollaxis ?ax a)
            (final (qbc_lower ul g d (rollaxis ?ax a)))"
      by (rule qbc_lower_keeps) (rule assms(1))
  next
    fix idx assume "?Q idx"
    then show "in_shape (shape a) idx" by (rule interior_in_shape)
  next
    fix idx assume q: "?Q idx" and ax: "?ax < length (shape a)"
    have "0 < length idx" using in_shape_lengthD [OF interior_in_shape [OF q]] ax by auto
    then show "mbc g \<le> roll_index ?ax idx ! 1"
      using interiorD(2) [OF q _ ax] by (simp add: roll_index_nth1 del: One_nat_def)
  qed simp
  have upper: "keeps ?Q b (final (on_rolled ?ax (qbc_upper uu g d) b))"
    if b: "shape b = shape a" for b :: "'a ndarray"
  proof (rule on_rolled_keeps
      [where P = "\<lambda>idx. idx ! 1 + mbc g < shape (rollaxis ?ax b) ! 1"])
    show "keeps (\<lambda>idx. idx ! 1 + mbc g < shape (rollaxis ?ax b) ! 1) (rollaxis ?ax b)
            (final (qbc_upper uu g d (rollaxis ?ax b)))"
      by (rule qbc_upper_keeps) (rule assms(2))
  next
    fix idx assume "?Q idx"
    then show "in_shape (shape b) idx" using b by (simp add: interior_in_shape)
  next
    fix idx assume q: "?Q idx" and ax: "?ax < length (shape b)"
    have ax': "?ax < length (shape a)" using ax b by simp
    have "0 < length idx" using in_shape_lengthD [OF interior_in_shape [OF q]] ax' by auto
    moreover have "0 < length (shape b)" using ax by auto
    ultimately show "roll_index ?ax idx ! 1 + mbc g < shape (rollaxis ?ax b) ! 1"
      using interiorD(3) [OF q _ ax'] b
      by (simp add: roll_index_nth1 rollaxis_def del: One_nat_def)
  qed simp
  show ?thesis
    unfolding qbc_dim_def
  proof (rule bind_keeps)
    show "keeps ?Q a (final (if mthbc_lower d = 0 then qbc_lower ul g d a
                             else on_rolled ?ax (qbc_lower ul g d) a))"
      using assms(1) lower by simp
  next
    fix b :: "'a ndarray" assume "shape b = shape a"
    then show "keeps ?Q b (final (if mthbc_upper d = 0 then qbc_upper uu g d b
                                  else on_rolled ?ax (qbc_upper uu g d) b))"
      using assms(2) upper by simp
  qed
qed

lemma qbc_dims_keeps:
  assumes "list_all (\<lambda>d. mthbc_lower d \<noteq> 0 \<and> mthbc_upper d \<noteq> 0) ds" "shape a = shp"
  shows "keeps (interior (mbc g) shp) a (final (qbc_dims ul uu g i ds a))"
  using assms
proof (induction ds arbitrary: a i)
  case Nil
  show ?case by (simp add: keeps_refl)
next
  case (Cons d ds)
  show ?case
    unfolding qbc_dims.simps
  proof (rule bind_keeps)
    show "keeps (interior (mbc g) shp) a (final (qbc_dim ul uu g i d a))"
      using qbc_dim_keeps [of d g a ul uu i] Cons.prems by simp
  next
    fix b :: "'a ndarray" assume "shape b = shape a"
    then show "keeps (interior (mbc g) shp) b (final (qbc_dims ul uu g (Suc i) ds b))"
      using Cons.prems by (intro Cons.IH) simp_all
  qed
qed


text \<open>
  Claim C8.  Let \<open>idx\<close> address an interior entry of the ghosted array: on every axis but
  the component axis its position lies between \<open>mbc\<close> and the axis length minus \<open>mbc\<close>.
  With a kind among 1, 2 and 3, \<open>qbc_lower\<close> and \<open>qbc_upper\<close> leave that entry (and the
  shape) as it was, whether they finish or raise; so does \<open>qbc\<close> when every side of every
  dimension has such a kind.
\<close>

theorem interior_untouched:
  assumes "interior (mbc g) (shape a) idx" and "1 < length (shape a)"
  shows "(mthbc_lower d \<in> {1, 2, 3} \<longrightarrow>
            shape (final (qbc_lower ul g d a)) = shape a \<and>
            dat (final (qbc_lower ul g d a)) idx = dat a idx) \<and>
         (mthbc_upper d \<in> {1, 2, 3} \<longrightarrow>
            shape (final (qbc_upper uu g d a)) = shape a \<and>
            dat (final (qbc_upper uu g d a)) idx = dat a idx) \<and>
         (list_all (\<lambda>d. mthbc_lower d \<in> {1, 2, 3} \<and> mthbc_upper d \<in> {1, 2, 3}) (dimensions g) \<longrightarrow>
            shape (final (qbc ul uu g a)) = shape a \<and>
            dat (final (qbc ul uu g a)) idx = dat a idx)"
proof (intro conjI impI)
  have ax1: "mbc g \<le> idx ! 1" "idx ! 1 + mbc g < shape a ! 1"
    using interiorD(2,3) [OF assms(1) _ assms(2)] by simp_all
  {
    assume "mthbc_lower d \<in> {1, 2, 3}"
    then have "keeps (\<lambda>idx. mbc g \<le> idx ! 1) a (final (qbc_lower ul g d a))"
      by (intro qbc_lower_keeps) auto
    then show "shape (final (qbc_lower ul g d a)) = shape a"
      and "dat (final (qbc_lower ul g d a)) idx = dat a idx"
      using ax1 by (simp_all add: keeps_def)
  }
  {
    assume "mthbc_upper d \<in> {1, 2, 3}"
    then have "keeps (\<lambda>idx. idx ! 1 + mbc g < shape a ! 1) a (final (qbc_upper uu g d a))"
      by (intro qbc_upper_keeps) auto
    then show "shape (final (qbc_upper uu g d a)) = shape a"
      and "dat (final (qbc_upper uu g d a)) idx = dat a idx"
      using ax1 by (simp_all add: keeps_def)
  }
  {
    assume "list_all (\<lambda>d. mthbc_lower d \<in> {1, 2, 3} \<and> mthbc_upper d \<in> {1, 2, 3}) (dimensions g)"
    then have "list_all (\<lambda>d. mthbc_lower d \<noteq> 0 \<and> mthbc_upper d \<noteq> 0) (dimensions g)"
      by (auto simp add: list_all_iff)
    then have "keeps (interior (mbc g) (shape a)) a (final (qbc ul uu g a))"
      unfolding qbc_def by (intro qbc_dims_keeps) simp_all
    then show "shape (final (qbc ul uu g a)) = shape a"
      and "dat (final (qbc ul uu g a)) idx = dat a idx"
      using assms(1) by (simp_all add: keeps_def)
  }
qed

theorem interior_untouched_witness:
  "dat (final (qbc_lower no_user_bc (plane_grid 3) (line_dim 3) plane_q)) [2, 3, 4] = 234 \<and>
   dat (final (qbc_upper no_user_bc (plane_grid 3) (line_dim 3) plane_q)) [2, 3, 4] = 234 \<and>
   dat (final (qbc no_user_bc no_user_bc (plane_grid 3) plane_q)) [2, 3, 4] = 234"
proof -
  have i: "interior (mbc (plane_grid 3)) (shape plane_q) [2, 3, 4]"
    by (simp add: interior_def in_shape_def plane_grid_def plane_q_def upt_rec)
  have l: "1 < length (shape plane_q)" by (simp add: plane_q_def)
  have k: "mthbc_lower (line_dim 3) \<in> {1, 2, 3}" "mthbc_upper (line_dim 3) \<in> {1, 2, 3}"
    "list_all (\<lambda>d. mthbc_lower d \<in> {1, 2, 3} \<and> mthbc_upper d \<in> {1, 2, 3})
       (dimensions (plane_grid 3))"
    by (simp_all add: line_dim_def plane_grid_def)
  have v: "dat plane_q [2, 3, 4] = 234" by (simp add: plane_q_def)
  note t = interior_untouched [OF i l, of "line_dim 3" no_user_bc no_user_bc]
  from t k have
    "dat (final (qbc_lower no_user_bc (plane_grid 3) (line_dim 3) plane_q)) [2, 3, 4]
       = dat plane_q [2, 3, 4] \<and>
     dat (final (qbc_upper no_user_bc (plane_grid 3) (line_dim 3) plane_q)) [2, 3, 4]
       = dat plane_q [2, 3, 4] \<and>
     dat (final (qbc no_user_bc no_user_bc (plane_grid 3) plane_q)) [2, 3, 4]
       = dat plane_q [2, 3, 4]"
    by blast
  then show ?thesis by (simp only: v)
qed

section \<open>Reflecting walls\<close>

text \<open>
  For ghost width 2 the wall fill is the reflection: a lower ghost cell \<open>p < 2\<close> receives
  cell \<open>3 - p\<close>, an upper ghost cell \<open>p \<ge> nl + 2\<close> receives cell \<open>2 nl + 3 - p\<close>, with
  the component \<open>c\<close> negated, where \<open>c\<close> is 1 on a one-dimensional grid and for a dimension
  named \<open>x\<close>, and 2 for any other dimension of a two-dimensional grid.
\<close>

lemma in_shape_upd:
  "in_shape (m # s1 # rest) idx \<Longrightarrow>
     idx[1 := k] ! 1 = k \<and> idx[1 := k] ! 0 = idx ! 0 \<and>
     (k < s1 \<longrightarrow> in_shape (m # s1 # rest) (idx[1 := k]))"
  by (auto simp add: in_shape_def list_all2_Cons2)

lemma wall_body_at:
  assumes shp: "shape a = m # s1 # rest" and c: "c < m"
    and i: "norm_index s1 i = Some i'" and j: "norm_index s1 j = Some j'"
  shows "\<exists>a'. wall_body c i j a = Done a' \<and> shape a' = shape a \<and>
           (\<forall>idx. dat a' idx =
              (if in_shape (shape a) idx \<and> idx ! 1 = i'
               then (if idx ! 0 = c then - dat a (idx[1 := j']) else dat a (idx[1 := j']))
               else dat a idx))"
proof -
  have j': "j' < s1" using j by (auto simp add: norm_index_def Let_def split: if_splits)
  show ?thesis
    using shp c i j j' in_shape_upd [of m s1 rest _ j']
    by (auto simp add: wall_body_def copy_axis1_def negate_axis1_def)
qed


lemma wall_loop_lower_mbc2:
  assumes shp: "shape a = m # (nl + 4) # rest" and c: "c < m"
  shows "\<exists>a'. for_loop [0..<2] (\<lambda>i. wall_body c (int i) (int 2 + 1 - int i)) a = Done a' \<and>
           (\<forall>idx. in_shape (shape a) idx \<and> idx ! 1 < 2 \<longrightarrow>
              dat a' idx = (if idx ! 0 = c then - dat a (idx[1 := 3 - idx ! 1])
                            else dat a (idx[1 := 3 - idx ! 1])))"
proof -
  have u: "[0..<2] = [0, 1]" by (simp add: upt_rec)
  have n: "int 2 + 1 - int 0 = int 3" "int 2 + 1 - int 1 = int 2" by simp_all
  obtain a1 where a1: "wall_body c (int 0) (int 3) a = Done a1" "shape a1 = shape a"
    "\<forall>idx. dat a1 idx =
        (if in_shape (shape a) idx \<and> idx ! 1 = 0
         then (if idx ! 0 = c then - dat a (idx[1 := 3]) else dat a (idx[1 := 3]))
         else dat a idx)"
    using wall_body_at [OF shp c norm_index_nat norm_index_nat, of 0 3] by auto
  have shp1: "shape a1 = m # (nl + 4) # rest" using a1(2) shp by simp
  obtain a2 where a2: "wall_body c (int 1) (int 2) a1 = Done a2"
    "\<forall>idx. dat a2 idx =
        (if in_shape (shape a1) idx \<and> idx ! 1 = 1
         then (if idx ! 0 = c then - dat a1 (idx[1 := 2]) else dat a1 (idx[1 := 2]))
         else dat a1 idx)"
    using wall_body_at [OF shp1 c norm_index_nat norm_index_nat, of 1 2] by auto
  have run: "for_loop [0..<2] (\<lambda>i. wall_body c (int i) (int 2 + 1 - int i)) a = Done a2"
    unfolding u by (simp only: for_loop.simps n a1(1) a2(1) bind_outcome.simps)
  have "dat a2 idx = (if idx ! 0 = c then - dat a (idx[1 := 3 - idx ! 1])
                      else dat a (idx[1 := 3 - idx ! 1]))"
    if ins: "in_shape (shape a) idx" and lt: "idx ! 1 < 2" for idx
  proof -
    have ins': "in_shape (m # (nl + 4) # rest) idx" using ins shp by simp
    note upd = in_shape_upd [OF ins', of 2]
    consider "idx ! 1 = 0" | "idx ! 1 = 1" using lt by linarith
    then show ?thesis
    proof cases
      case 1
      then show ?thesis using a1(3) a2(2) ins by (simp add: a1(2))
    next
      case 2
      then show ?thesis using a1(3) a2(2) ins upd by (simp add: a1(2) shp)
    qed
  qed
  then show ?thesis using run by blast
qed


lemma wall_loop_upper_mbc2:
  assumes shp: "shape a = m # (nl + 4) # rest" and c: "c < m"
  shows "\<exists>a'. for_loop [0..<2] (\<lambda>i. wall_body c (- int i - 1) (- int 2 - 2 + int i)) a = Done a' \<and>
           (\<forall>idx. in_shape (shape a) idx \<and> nl + 2 \<le> idx ! 1 \<longrightarrow>
              dat a' idx = (if idx ! 0 = c then - dat a (idx[1 := 2 * nl + 3 - idx ! 1])
                            else dat a (idx[1 := 2 * nl + 3 - idx ! 1])))"
proof -
  have u: "[0..<2] = [0, 1]" by (simp add: upt_rec)
  have n: "- int 2 - 2 + int 0 = - int 3 - 1" "- int 2 - 2 + int 1 = - int 2 - 1" by simp_all
  have i0: "norm_index (nl + 4) (- int 0 - 1) = Some (nl + 3)"
    and j0: "norm_index (nl + 4) (- int 3 - 1) = Some nl"
    and i1: "norm_index (nl + 4) (- int 1 - 1) = Some (nl + 2)"
    and j1: "norm_index (nl + 4) (- int 2 - 1) = Some (nl + 1)"
    by (simp_all add: norm_index_def)
  obtain a1 where a1: "wall_body c (- int 0 - 1) (- int 3 - 1) a = Done a1" "shape a1 = shape a"
    "\<forall>idx. dat a1 idx =
        (if in_shape (shape a) idx \<and> idx ! 1 = nl + 3
         then (if idx ! 0 = c then - dat a (idx[1 := nl]) else dat a (idx[1 := nl]))
         else dat a idx)"
    using wall_body_at [OF shp c i0 j0] by auto
  have shp1: "shape a1 = m # (nl + 4) # rest" using a1(2) shp by simp
  obtain a2 where a2: "wall_body c (- int 1 - 1) (- int 2 - 1) a1 = Done a2"
    "\<forall>idx. dat a2 idx =
        (if in_shape (shape a1) idx \<and> idx ! 1 = nl + 2
         then (if idx ! 0 = c then - dat a1 (idx[1 := nl + 1]) else dat a1 (idx[1 := nl + 1]))
         else dat a1 idx)"
    using wall_body_at [OF shp1 c i1 j1] by auto
  have run: "for_loop [0..<2] (\<lambda>i. wall_body c (- int i - 1) (- int 2 - 2 + int i)) a = Done a2"
    unfolding u by (simp only: for_loop.simps n a1(1) a2(1) bind_outcome.simps)
  have "dat a2 idx = (if idx ! 0 = c then - dat a (idx[1 := 2 * nl + 3 - idx ! 1])
                      else dat a (idx[1 := 2 * nl + 3 - idx ! 1]))"
    if ins: "in_shape (shape a) idx" and ge: "nl + 2 \<le> idx ! 1" for idx
  proof -
    have ins': "in_shape (m # (nl + 4) # rest) idx" using ins shp by simp
    note upd = in_shape_upd [OF ins', of "nl + 1"]
    have "idx ! 1 < nl + 4" using ins' by (auto simp add: in_shape_def list_all2_Cons2)
    then consider "idx ! 1 = nl + 3" | "idx ! 1 = nl + 2" using ge by linarith
    then show ?thesis
    proof cases
      case 1
      then show ?thesis using a1(3) a2(2) ins by (simp add: a1(2))
    next
      case 2
      then show ?thesis using a1(3) a2(2) ins upd by (simp add: a1(2) shp)
    qed
  qed
  then show ?thesis using run by blast
qed

lemma wall_fill_mbc2:
  assumes "mbc g = 2" and "ndim g = 1 \<or> ndim g = 2"
    and "shape a = m # (nl + 4) # rest"
    and "c = (if ndim g = 1 \<or> name d = ''x'' then 1 else 2)" and "c < m"
  shows "mthbc_lower d = 3 \<and> nstart d = 0 \<longrightarrow>
           (\<exists>a'. qbc_lower ul g d a = Done a' \<and>
              (\<forall>idx. in_shape (shape a) idx \<and> idx ! 1 < 2 \<longrightarrow>
                 dat a' idx = (if idx ! 0 = c then - dat a (idx[1 := 3 - idx ! 1])
                               else dat a (idx[1 := 3 - idx ! 1]))))"
    and "mthbc_upper d = 3 \<and> nend d = n d \<longrightarrow>
           (\<exists>a'. qbc_upper uu g d a = Done a' \<and>
              (\<forall>idx. in_shape (shape a) idx \<and> nl + 2 \<le> idx ! 1 \<longrightarrow>
                 dat a' idx = (if idx ! 0 = c then - dat a (idx[1 := 2 * nl + 3 - idx ! 1])
                               else dat a (idx[1 := 2 * nl + 3 - idx ! 1]))))"
proof -
  have int2: "int (mbc g) = int 2" using assms(1) by simp
  show "mthbc_lower d = 3 \<and> nstart d = 0 \<longrightarrow>
           (\<exists>a'. qbc_lower ul g d a = Done a' \<and>
              (\<forall>idx. in_shape (shape a) idx \<and> idx ! 1 < 2 \<longrightarrow>
                 dat a' idx = (if idx ! 0 = c then - dat a (idx[1 := 3 - idx ! 1])
                               else dat a (idx[1 := 3 - idx ! 1]))))"
    using wall_loop_lower_mbc2 [OF assms(3,5)] assms(1,2,4)
    by (cases "ndim g = 1"; cases "name d = ''x''")
       (simp_all only: qbc_lower_def int2 if_True if_False simp_thms, simp_all)
  show "mthbc_upper d = 3 \<and> nend d = n d \<longrightarrow>
           (\<exists>a'. qbc_upper uu g d a = Done a' \<and>
              (\<forall>idx. in_shape (shape a) idx \<and> nl + 2 \<le> idx ! 1 \<longrightarrow>
                 dat a' idx = (if idx ! 0 = c then - dat a (idx[1 := 2 * nl + 3 - idx ! 1])
                               else dat a (idx[1 := 2 * nl + 3 - idx ! 1]))))"
    using wall_loop_upper_mbc2 [OF assms(3,5)] assms(1,2,4)
    by (cases "ndim g = 1"; cases "name d = ''x''")
       (simp_all only: qbc_upper_def int2 if_True if_False simp_thms, simp_all)
qed

text \<open>
  Claim C1.  The wall loops read index \<open>mbc + 1 - i\<close> (lower) and \<open>-mbc - 2 + i\<close>
  (upper), which is the mirror image of the ghost index only for \<open>mbc = 2\<close>.  On the line
  of three cells with \<open>mbc = 1\<close> the lower ghost cell 0 receives cell 2 instead of its
  mirror image, cell 1, and the upper ghost cell 4 receives cell 2 instead of cell 3.  With
  \<open>mbc = 3\<close> the lower ghost cell 2 reads itself: its velocity ends as the negation of
  its own old value, and not of the value of its mirror image, cell 3.
\<close>

theorem wall_fill_misses_mirror:
  "dat (final (qbc_lower no_user_bc (line_grid 1 3) (line_dim 3) (line_q 1))) [0, 0]
     = dat (line_q 1) [0, 2] \<and>
   dat (final (qbc_lower no_user_bc (line_grid 1 3) (line_dim 3) (line_q 1))) [0, 0]
     \<noteq> dat (line_q 1) [0, 1] \<and>
   dat (final (qbc_upper no_user_bc (line_grid 1 3) (line_dim 3) (line_q 1))) [0, 4]
     = dat (line_q 1) [0, 2] \<and>
   dat (final (qbc_upper no_user_bc (line_grid 1 3) (line_dim 3) (line_q 1))) [0, 4]
     \<noteq> dat (line_q 1) [0, 3] \<and>
   dat (final (qbc_lower no_user_bc (line_grid 3 3) (line_dim 3) (line_q 3))) [1, 2]
     = - dat (line_q 3) [1, 2] \<and>
   dat (final (qbc_lower no_user_bc (line_grid 3 3) (line_dim 3) (line_q 3))) [1, 2]
     \<noteq> - dat (line_q 3) [1, 3]"
  by (simp add: qbc_lower_def qbc_upper_def line_grid_def line_dim_def line_q_def ndim_def
      wall_body_def copy_axis1_def negate_axis1_def norm_index_def in_shape_def upt_rec)

section \<open>The CFL number after the reduction\<close>

lemma Allreduce_MAX_Max: "xs \<noteq> [] \<Longrightarrow> Allreduce_MAX xs = Max (set xs)"
proof (induction xs rule: Allreduce_MAX.induct)
  case 1
  then show ?case by simp
next
  case (2 x)
  show ?case by simp
next
  case (3 x y ys)
  then show ?case by simp
qed

lemma filter_all: "list_all P xs \<Longrightarrow> filter P xs = xs"
  by (induction xs) simp_all

lemma cfl_reduced:
  assumes "list_all dt_variable ss" and "ss \<noteq> []"
  shows "\<exists>ss'. communicateCFL_all ss = Some ss' \<and> length ss' = length ss \<and>
           (\<forall>s' \<in> set ss'. cfl s' = Max (set (map cfl ss)) \<and> dt_variable s') \<and>
           (\<forall>s1 \<in> set ss'. \<forall>s2 \<in> set ss'. \<forall>cfl_max. (cfl s1 \<le> cfl_max) = (cfl s2 \<le> cfl_max))"
proof -
  have f: "filter dt_variable ss = ss" using assms(1) by (rule filter_all)
  have m: "Allreduce_MAX (map cfl ss) = Max (set (map cfl ss))"
    using assms(2) by (intro Allreduce_MAX_Max) simp
  define M where "M = Max (set (map cfl ss))"
  have dt: "s \<in> set ss \<Longrightarrow> dt_variable s" for s
    using assms(1) by (simp add: list_all_iff)
  have "communicateCFL_all ss = Some (map (communicateCFL M) ss)"
    by (simp add: communicateCFL_all_def f m M_def)
  also have "map (communicateCFL M) ss = map (\<lambda>s. s\<lparr>cfl := M\<rparr>) ss"
    by (rule map_cong) (simp_all add: communicateCFL_def dt)
  finally have "communicateCFL_all ss = Some (map (\<lambda>s. s\<lparr>cfl := M\<rparr>) ss)" .
  moreover have "\<forall>s' \<in> set (map (\<lambda>s. s\<lparr>cfl := M\<rparr>) ss). cfl s' = M \<and> dt_variable s'"
    using dt by auto
  ultimately show ?thesis
    unfolding M_def [symmetric] by (intro exI [of _ "map (\<lambda>s. s\<lparr>cfl := M\<rparr>) ss"]) simp
qed

lemma cfl_kept_one: "\<not> dt_variable s \<Longrightarrow> communicateCFL r s = s"
  by (simp add: communicateCFL_def)

lemma cfl_kept_all:
  assumes "list_all (\<lambda>s. \<not> dt_variable s) ss"
  shows "communicateCFL_all ss = Some ss"
proof -
  have no: "s \<in> set ss \<Longrightarrow> \<not> dt_variable s" for s
    using assms by (simp add: list_all_iff)
  then have f: "filter dt_variable ss = []" by (simp add: filter_empty_conv)
  have "map (communicateCFL r) ss = ss" for r
    by (rule map_idI) (simp add: cfl_kept_one no)
  then show ?thesis by (simp add: communicateCFL_all_def f)
qed

text \<open>
  Claim C4, as the code has it.  When the step size is variable on every partition (and
  there is at least one partition), the collective completes, and afterwards every
  partition stores the maximum of the CFL numbers that the partitions observed; hence all
  partitions compare the same number with any bound \<open>cfl_max\<close>.  When the step size is
  not variable, \<open>communicateCFL\<close> leaves the solver of a partition as it is, whatever the
  all-reduce would return; when it is variable on no partition, no partition enters the
  collective and every partition keeps its own CFL number.
\<close>

theorem cfl_reduced_when_variable:
  "(list_all dt_variable ss \<and> ss \<noteq> [] \<longrightarrow>
      (\<exists>ss'. communicateCFL_all ss = Some ss' \<and> length ss' = length ss \<and>
         (\<forall>s' \<in> set ss'. cfl s' = Max (set (map cfl ss)) \<and> dt_variable s') \<and>
         (\<forall>s1 \<in> set ss'. \<forall>s2 \<in> set ss'. \<forall>cfl_max.
            (cfl s1 \<le> cfl_max) = (cfl s2 \<le> cfl_max)))) \<and>
   (\<not> dt_variable s \<longrightarrow> communicateCFL r s = s) \<and>
   (list_all (\<lambda>s. \<not> dt_variable s) ss \<longrightarrow> communicateCFL_all ss = Some ss)"
  using cfl_reduced [of ss] cfl_kept_one [of s r] cfl_kept_all [of ss] by blast

theorem cfl_reduced_when_variable_witness:
  "(\<exists>ss'. communicateCFL_all (two_partitions True) = Some ss' \<and> length ss' = 2 \<and>
          cfl (ss' ! 0) = 1 \<and> cfl (ss' ! 1) = 1) \<and>
   communicateCFL 1 (two_partitions False ! 0) = two_partitions False ! 0 \<and>
   communicateCFL_all (two_partitions False) = Some (two_partitions False)"
proof -
  have a: "list_all dt_variable (two_partitions True) \<and> two_partitions True \<noteq> []"
    by (simp add: two_partitions_def)
  have mx: "Max (set (map cfl (two_partitions True))) = 1"
    by (simp add: two_partitions_def)
  have n: "\<not> dt_variable (two_partitions False ! 0)"
    by (simp add: two_partitions_def)
  note t = cfl_reduced_when_variable [of "two_partitions True" "two_partitions False ! 0" 1]
  from t a obtain ss' where ss':
    "communicateCFL_all (two_partitions True) = Some ss'"
    "length ss' = length (two_partitions True)"
    "\<forall>s' \<in> set ss'. cfl s' = Max (set (map cfl (two_partitions True))) \<and> dt_variable s'"
    by blast
  have len: "length ss' = 2" using ss'(2) by (simp add: two_partitions_def)
  then have "ss' ! 0 \<in> set ss'" "ss' ! 1 \<in> set ss'" by simp_all
  then have "cfl (ss' ! 0) = 1" "cfl (ss' ! 1) = 1" using ss'(3) mx by simp_all
  moreover have "communicateCFL 1 (two_partitions False ! 0) = two_partitions False ! 0"
    using t n by blast
  moreover have "communicateCFL_all (two_partitions False) = Some (two_partitions False)"
  proof -
    have "list_all (\<lambda>s. \<not> dt_variable s) (two_partitions False)"
      by (simp add: two_partitions_def)
    then show ?thesis
      using cfl_reduced_when_variable [of "two_partitions False" "two_partitions False ! 0" 1]
      by blast
  qed
  ultimately show ?thesis using ss'(1) len by blast
qed

text \<open>
  Claim C4, as the specification has it, fails when the step size is fixed:
  \<open>communicateCFL\<close> then performs no reduction, and the first of two partitions keeps its
  own CFL number \<open>1/2\<close> although the maximum is \<open>1\<close>.
\<close>

theorem cfl_not_reduced_counterexample:
  "communicateCFL_all (two_partitions False) = Some (two_partitions False) \<and>
   cfl (two_partitions False ! 0) = 1 / 2 \<and>
   Max (set (map cfl (two_partitions False))) = 1"
  by (simp add: communicateCFL_all_def communicateCFL_def two_partitions_def)

section \<open>The divisor of the sphere mappings\<close>

lemma d_nonvectorized_ge: "1 / 10 ^ 10 \<le> d_nonvectorized xc yc"
  unfolding d_nonvectorized_def Let_def by (cases "fold_nonvectorized xc yc") (simp only: prod.case max.cobounded2)

lemma d_vectorized_ge: "1 / 10 ^ 10 \<le> d_vectorized xc yc"
  unfolding d_vectorized_def Let_def by (cases "fold_vectorized xc yc") (simp only: prod.case max.cobounded2)

text \<open>
  Claim C9.  In both sphere mappings the divisor \<open>d\<close> of \<open>xp = D/d * xc1\<close> and
  \<open>yp = D/d * yc1\<close> is at least \<open>1e-10\<close> at every point, hence positive and not zero.
  Only \<open>abs\<close> and \<open>maximum\<close> stand between the folded coordinates and \<open>d\<close>, so the
  bound does not depend on how the arithmetic before them rounds.
\<close>

theorem sphere_divisor_positive:
  "1 / 10 ^ 10 \<le> d_nonvectorized xc yc \<and> 0 < d_nonvectorized xc yc \<and>
   1 / 10 ^ 10 \<le> d_vectorized xc yc \<and> 0 < d_vectorized xc yc"
proof -
  have "(0::real) < 1 / 10 ^ 10" by simp
  then show ?thesis
    using d_nonvectorized_ge [of xc yc] d_vectorized_ge [of xc yc] by linarith
qed

section \<open>The unbound name in \<open>qinit\<close>\<close>

lemma for_loop_first_failure:
  assumes "I s"
    and "\<And>k s. k \<in> set ks \<Longrightarrow> I s \<Longrightarrow> bad k \<Longrightarrow> \<exists>s'. body k s = Raised e s' \<and> I s'"
    and "\<And>k s. k \<in> set ks \<Longrightarrow> I s \<Longrightarrow> \<not> bad k \<Longrightarrow> \<exists>s'. body k s = Done s' \<and> I s'"
  shows "if \<exists>k \<in> set ks. bad k
         then \<exists>s'. for_loop ks body s = Raised e s' \<and> I s'
         else \<exists>s'. for_loop ks body s = Done s' \<and> I s'"
  using assms
proof (induction ks arbitrary: s)
  case Nil
  then show ?case by simp
next
  case (Cons k ks)
  show ?case
  proof (cases "bad k")
    case True
    then obtain s' where "body k s = Raised e s'" "I s'"
      using Cons.prems(1,2) by (meson list.set_intros(1))
    then show ?thesis using True by simp
  next
    case False
    then obtain s' where s': "body k s = Done s'" "I s'"
      using Cons.prems(1,3) by (meson list.set_intros(1))
    have "if \<exists>k \<in> set ks. bad k
          then \<exists>s''. for_loop ks body s' = Raised e s'' \<and> I s''
          else \<exists>s''. for_loop ks body s' = Done s'' \<and> I s''"
      by (rule Cons.IH [OF s'(2)]) (simp_all add: Cons.prems(2,3))
    then show ?thesis using False s'(1) by simp
  qed
qed

lemma read_p_center_sized:
  assumes "sized st0 mx my" "p_center s = p_center st0" "i < mx" "j < my" "k < 3"
  shows "read_p_center s k i j = Some (dat (p_center st0 ! k) [i, j])"
  using assms by (simp add: read_p_center_def sized_def list_all_length in_shape_def)

lemma write_q_inv:
  assumes "sized st0 mx my" "qinit_inv st0 s" "i < mx" "j < my" "c < 4"
    and "\<not> third_quadrant st0 i j"
  shows "\<exists>s'. write_q c i j v s = Done s' \<and> qinit_inv st0 s'"
  using assms by (auto simp add: write_q_def qinit_inv_def sized_def in_shape_def)

lemma theta_of_third: "xp \<le> 0 \<and> yp < 0 \<Longrightarrow> theta_of xp yp rad = Inl (NameError ''pi'')"
  by (simp add: theta_of_def)

lemma theta_of_other: "\<not> (xp \<le> 0 \<and> yp < 0) \<Longrightarrow> \<exists>t. theta_of xp yp rad = Inr t"
  by (auto simp add: theta_of_def)

lemma qinit_cell_third:
  assumes "sized st0 mx my" "qinit_inv st0 s" "i < mx" "j < my" "third_quadrant st0 i j"
  shows "qinit_cell i j s = Raised (NameError ''pi'') s"
proof -
  have p: "p_center s = p_center st0" using assms(2) by (simp add: qinit_inv_def)
  have r: "read_p_center s k i j = Some (dat (p_center st0 ! k) [i, j])" if "k < 3" for k
    using read_p_center_sized [OF assms(1) p assms(3,4) that] .
  have t: "theta_of (dat (p_center st0 ! 0) [i, j]) (dat (p_center st0 ! 1) [i, j]) rad
             = Inl (NameError ''pi'')" for rad
    using assms(5) by (intro theta_of_third) (simp add: third_quadrant_def)
  show ?thesis
    using t by (simp add: qinit_cell_def r Let_def)
qed

lemma qinit_cell_other:
  assumes "sized st0 mx my" "qinit_inv st0 s" "i < mx" "j < my" "\<not> third_quadrant st0 i j"
  shows "\<exists>s'. qinit_cell i j s = Done s' \<and> qinit_inv st0 s'"
proof -
  have p: "p_center s = p_center st0" using assms(2) by (simp add: qinit_inv_def)
  have r: "read_p_center s k i j = Some (dat (p_center st0 ! k) [i, j])" if "k < 3" for k
    using read_p_center_sized [OF assms(1) p assms(3,4) that] .
  let ?xp = "dat (p_center st0 ! 0) [i, j]" and ?yp = "dat (p_center st0 ! 1) [i, j]"
  let ?rad = "max (sqrt (?xp\<^sup>2 + ?yp\<^sup>2)) (1 / 10 ^ 6)"
  obtain t where t: "theta_of ?xp ?yp ?rad = Inr t"
    using assms(5) theta_of_other [of ?xp ?yp ?rad] by (auto simp add: third_quadrant_def)
  obtain u0 u1 u2 where u: "rossby_Uout t (phi_of (dat (p_center st0 ! 2) [i, j])) = (u0, u1, u2)"
    by (cases "rossby_Uout t (phi_of (dat (p_center st0 ! 2) [i, j]))") auto
  note w = write_q_inv [OF assms(1) _ assms(3,4) _ assms(5)]
  obtain s0 where s0: "write_q 0 i j (rossby_h t (phi_of (dat (p_center st0 ! 2) [i, j]))) s = Done s0" "qinit_inv st0 s0"
    using w [OF assms(2), of 0] by auto
  obtain s1 where s1: "write_q 1 i j (rossby_h t (phi_of (dat (p_center st0 ! 2) [i, j])) * u0) s0 = Done s1" "qinit_inv st0 s1"
    using w [OF s0(2), of 1] by auto
  obtain s2 where s2: "write_q 2 i j (rossby_h t (phi_of (dat (p_center st0 ! 2) [i, j])) * u1) s1 = Done s2" "qinit_inv st0 s2"
    using w [OF s1(2), of 2] by auto
  obtain s3 where s3: "write_q 3 i j (rossby_h t (phi_of (dat (p_center st0 ! 2) [i, j])) * u2) s2 = Done s3" "qinit_inv st0 s3"
    using w [OF s2(2), of 3] by auto
  have "qinit_cell i j s = Done s3"
    using t u s0(1) s1(1) s2(1) s3(1) by (simp add: qinit_cell_def r Let_def)
  then show ?thesis using s3(2) by blast
qed


lemma qinit_row:
  assumes "sized st0 mx my" "qinit_inv st0 s" "i < mx"
  shows "if \<exists>j \<in> set [0..<my]. third_quadrant st0 i j
         then \<exists>s'. for_loop [0..<my] (\<lambda>j. qinit_cell i j) s = Raised (NameError ''pi'') s'
                \<and> qinit_inv st0 s'
         else \<exists>s'. for_loop [0..<my] (\<lambda>j. qinit_cell i j) s = Done s' \<and> qinit_inv st0 s'"
proof (rule for_loop_first_failure [where I = "qinit_inv st0"])
  show "qinit_inv st0 s" by (rule assms(2))
next
  fix j s
  assume "j \<in> set [0..<my]" "qinit_inv st0 s" "third_quadrant st0 i j"
  then show "\<exists>s'. qinit_cell i j s = Raised (NameError ''pi'') s' \<and> qinit_inv st0 s'"
    using qinit_cell_third [OF assms(1) _ assms(3), of s j] by simp
next
  fix j s
  assume "j \<in> set [0..<my]" "qinit_inv st0 s" "\<not> third_quadrant st0 i j"
  then show "\<exists>s'. qinit_cell i j s = Done s' \<and> qinit_inv st0 s'"
    using qinit_cell_other [OF assms(1) _ assms(3), of s j] by simp
qed

lemma qinit_rows:
  assumes "sized st0 mx my" "qinit_inv st0 s"
  shows "if \<exists>i \<in> set [0..<mx]. \<exists>j \<in> set [0..<my]. third_quadrant st0 i j
         then \<exists>s'. qinit s mx my = Raised (NameError ''pi'') s' \<and> qinit_inv st0 s'
         else \<exists>s'. qinit s mx my = Done s' \<and> qinit_inv st0 s'"
  unfolding qinit_def
proof (rule for_loop_first_failure [where I = "qinit_inv st0"])
  show "qinit_inv st0 s" by (rule assms(2))
next
  fix i s
  assume "i \<in> set [0..<mx]" "qinit_inv st0 s" "\<exists>j \<in> set [0..<my]. third_quadrant st0 i j"
  then show "\<exists>s'. for_loop [0..<my] (\<lambda>j. qinit_cell i j) s = Raised (NameError ''pi'') s'
                \<and> qinit_inv st0 s'"
    using qinit_row [OF assms(1), of s i] by simp
next
  fix i s
  assume "i \<in> set [0..<mx]" "qinit_inv st0 s" "\<not> (\<exists>j \<in> set [0..<my]. third_quadrant st0 i j)"
  then show "\<exists>s'. for_loop [0..<my] (\<lambda>j. qinit_cell i j) s = Done s' \<and> qinit_inv st0 s'"
    using qinit_row [OF assms(1), of s i] by simp
qed

text \<open>
  Claim C10.  Let the arrays have the sizes \<open>qinit\<close> expects for \<open>mx\<close> by \<open>my\<close> cells, and
  let some cell centre \<open>(i, j)\<close> of the grid lie in the third quadrant (\<open>xp \<le> 0\<close> and
  \<open>yp < 0\<close>).  Then \<open>qinit\<close> ends with the \<open>NameError\<close> for \<open>pi\<close>; the coordinate arrays
  are as before, and no entry of \<open>q\<close> at a cell of the third quadrant has been assigned.
\<close>

theorem qinit_third_quadrant_NameError:
  assumes "sized st mx my" and "i < mx" and "j < my" and "third_quadrant st i j"
  shows "\<exists>st'. qinit st mx my = Raised (NameError ''pi'') st' \<and>
           p_center st' = p_center st \<and>
           (\<forall>c i' j'. third_quadrant st i' j'
              \<longrightarrow> dat (q st') [c, i', j'] = dat (q st) [c, i', j'])"
proof -
  have inv: "qinit_inv st st" by (simp add: qinit_inv_def)
  have "\<exists>i \<in> set [0..<mx]. \<exists>j \<in> set [0..<my]. third_quadrant st i j"
    using assms(2,3,4) by (intro bexI [of _ i] bexI [of _ j]) simp_all
  then obtain st' where "qinit st mx my = Raised (NameError ''pi'') st'" "qinit_inv st st'"
    using qinit_rows [OF assms(1) inv] by auto
  then show ?thesis by (auto simp add: qinit_inv_def)
qed

theorem qinit_third_quadrant_NameError_witness:
  "\<exists>st'. qinit quadrant_state 2 2 = Raised (NameError ''pi'') st' \<and>
         dat (q st') [0, 1, 1] = 0 \<and> dat (q st') [3, 1, 1] = 0"
proof -
  have s: "sized quadrant_state 2 2" by (simp add: sized_def quadrant_state_def)
  have t: "third_quadrant quadrant_state 1 1" by (simp add: third_quadrant_def quadrant_state_def)
  have z: "dat (q quadrant_state) idx = 0" for idx by (simp add: quadrant_state_def)
  from qinit_third_quadrant_NameError [OF s _ _ t] obtain st' where
    "qinit quadrant_state 2 2 = Raised (NameError ''pi'') st'"
    "\<forall>c i' j'. third_quadrant quadrant_state i' j'
        \<longrightarrow> dat (q st') [c, i', j'] = dat (q quadrant_state) [c, i', j']"
    by auto
  then show ?thesis using t z by auto
qed

end
